theory Spec2Isabelle
  imports Main "HOL-Library.AList" "HOL-Library.Multiset" "HOL-Library.Sublist"
begin

text \<open>
  The storage adapters of the OpenSlides auth service: two classes that keep JSON-encoded
  records in a Redis database under prefixed keys. \<^verbatim>\<open>RedisDatabaseAdapter\<close> offers
  \<^verbatim>\<open>set\<close>, \<^verbatim>\<open>get\<close>, \<^verbatim>\<open>remove\<close>, \<^verbatim>\<open>getAll\<close> and \<^verbatim>\<open>clear\<close>; \<^verbatim>\<open>DatabaseAdapter\<close> offers
  \<^verbatim>\<open>set\<close>, \<^verbatim>\<open>get\<close>, \<^verbatim>\<open>update\<close>, \<^verbatim>\<open>remove\<close> and \<^verbatim>\<open>getAll\<close>. Every operation is a function from
  the store to a result and the store that it leaves; a promise that is rejected or never
  resolved is an error value. The calls of one operation are applied in program order, with
  no other client writing in between.
\<close>

section \<open>Key namespacing\<close>

text \<open>
  \<^verbatim>\<open>RedisDatabaseAdapter.getPrefixedKey\<close>: \<^verbatim>\<open>return prefix + '_' + key;\<close>
\<close>

definition getPrefixedKey :: "string \<Rightarrow> string \<Rightarrow> string" where
  "getPrefixedKey pfx key = pfx @ ''_'' @ key"

text \<open>
  \<^verbatim>\<open>DatabaseAdapter\<close> has no helper of its own: \<^verbatim>\<open>set\<close> and \<^verbatim>\<open>remove\<close> both start with
  \<^verbatim>\<open>key = prefix + key;\<close>. The expression is named here so that both operations share it.
\<close>

definition concatKey :: "string \<Rightarrow> string \<Rightarrow> string" where
  "concatKey pfx key = pfx @ key"

section \<open>Values and the serialization codec\<close>

text \<open>
  The adapters are generic in the stored type \<^verbatim>\<open>T\<close>; every value passes through
  \<^verbatim>\<open>JSON.stringify\<close> on a write and \<^verbatim>\<open>JSON.parse\<close> on a read. The values modelled are the
  JSON-shaped ones: null, booleans, integer-valued numbers, strings of code units below 256,
  arrays, and plain objects. An object is the list of its own properties in creation order;
  the engine's rule that moves integer-like property names to the front is not modelled (it
  changes the enumeration order only, never which properties an object has or their values).
\<close>

datatype jsval =
    JNull
  | JBool bool
  | JNum int
  | JStr string
  | JArr "jsval list"
  | JObj "(string \<times> jsval) list"

text \<open>
  Errors as values. \<^verbatim>\<open>SyntaxError\<close> is what \<^verbatim>\<open>JSON.parse\<close> throws on malformed text and
  \<^verbatim>\<open>TypeError\<close> what \<^verbatim>\<open>Object.assign\<close> throws on a null target. \<^verbatim>\<open>Unmodelled\<close> marks the inputs
  outside the fragment modelled here (a number written with a fraction or an exponent, an
  integer beyond the safe range, a code unit above 255, a property assignment on an array or
  a string, an assignment that replaces a prototype): what the program does on them is not represented, and nothing is proved about
  them.
\<close>

datatype error = SyntaxError | TypeError | Unmodelled

text \<open>
  \<^verbatim>\<open>JSON.stringify\<close> (ECMA-262, SerializeJSONProperty). An integer prints in decimal, a
  string is quoted by QuoteJSONString, containers print their parts separated by commas with
  no white space. \<open>digit_char\<close> is only ever applied to a number below 16.
\<close>

definition MAX_SAFE_INTEGER :: int where
  "MAX_SAFE_INTEGER = 9007199254740991"

definition digit_char :: "nat \<Rightarrow> char" where
  "digit_char d = ''0123456789abcdef'' ! d"

fun nat_digits :: "nat \<Rightarrow> string" where
  "nat_digits n = (if n < 10 then [digit_char n] else nat_digits (n div 10) @ [digit_char (n mod 10)])"

definition number_text :: "int \<Rightarrow> string" where
  "number_text n = (if n < 0 then CHR ''-'' # nat_digits (nat (- n)) else nat_digits (nat n))"

definition quote_char :: "char \<Rightarrow> string" where
  "quote_char c =
     (if c = CHR 0x08 then [CHR 0x5C, CHR ''b'']
      else if c = CHR 0x09 then [CHR 0x5C, CHR ''t'']
      else if c = CHR 0x0A then [CHR 0x5C, CHR ''n'']
      else if c = CHR 0x0C then [CHR 0x5C, CHR ''f'']
      else if c = CHR 0x0D then [CHR 0x5C, CHR ''r'']
      else if c = CHR 0x22 then [CHR 0x5C, CHR 0x22]
      else if c = CHR 0x5C then [CHR 0x5C, CHR 0x5C]
      else if of_char c < (32::nat) then
        [CHR 0x5C, CHR ''u'', CHR ''0'', CHR ''0'',
         digit_char (of_char c div 16), digit_char (of_char c mod 16)]
      else [c])"

definition QuoteJSONString :: "string \<Rightarrow> string" where
  "QuoteJSONString s = CHR 0x22 # concat (map quote_char s) @ [CHR 0x22]"

fun commas :: "string list \<Rightarrow> string" where
  "commas [] = []"
| "commas [x] = x"
| "commas (x # y # ys) = x @ CHR '','' # commas (y # ys)"

fun JSON_stringify :: "jsval \<Rightarrow> string" where
  "JSON_stringify JNull = ''null''"
| "JSON_stringify (JBool b) = (if b then ''true'' else ''false'')"
| "JSON_stringify (JNum n) = number_text n"
| "JSON_stringify (JStr s) = QuoteJSONString s"
| "JSON_stringify (JArr xs) = CHR ''['' # commas (map JSON_stringify xs) @ '']''"
| "JSON_stringify (JObj kvs) =
     CHR ''{'' # commas (map (\<lambda>(k, v). QuoteJSONString k @ CHR '':'' # JSON_stringify v) kvs) @ ''}''"

text \<open>
  \<^verbatim>\<open>JSON.parse\<close>: a recursive-descent reader of the JSON grammar, white space allowed around
  every token. Each function returns the value read and the unread rest of the text.
\<close>

definition is_ws :: "char \<Rightarrow> bool" where
  "is_ws c \<longleftrightarrow> c = CHR 0x20 \<or> c = CHR 0x09 \<or> c = CHR 0x0A \<or> c = CHR 0x0D"

definition skip_ws :: "string \<Rightarrow> string" where
  "skip_ws text = dropWhile is_ws text"

definition is_digit :: "char \<Rightarrow> bool" where
  "is_digit c \<longleftrightarrow> (48::nat) \<le> of_char c \<and> of_char c \<le> (57::nat)"

definition digit_val :: "char \<Rightarrow> nat" where
  "digit_val c = of_char c - 48"

definition hex_val :: "char \<Rightarrow> nat option" where
  "hex_val c =
     (let n = (of_char c :: nat) in
      if 48 \<le> n \<and> n \<le> 57 then Some (n - 48)
      else if 97 \<le> n \<and> n \<le> 102 then Some (n - 87)
      else if 65 \<le> n \<and> n \<le> 70 then Some (n - 55)
      else None)"

definition unescape :: "char \<Rightarrow> char option" where
  "unescape e =
     (if e = CHR 0x22 then Some (CHR 0x22)
      else if e = CHR 0x5C then Some (CHR 0x5C)
      else if e = CHR ''/'' then Some (CHR ''/'')
      else if e = CHR ''b'' then Some (CHR 0x08)
      else if e = CHR ''f'' then Some (CHR 0x0C)
      else if e = CHR ''n'' then Some (CHR 0x0A)
      else if e = CHR ''r'' then Some (CHR 0x0D)
      else if e = CHR ''t'' then Some (CHR 0x09)
      else None)"

definition cons_result :: "char \<Rightarrow> error + string \<times> string \<Rightarrow> error + string \<times> string" where
  "cons_result c r = (case r of Inl e \<Rightarrow> Inl e | Inr (s, rest) \<Rightarrow> Inr (c # s, rest))"

fun parse_chars :: "string \<Rightarrow> error + string \<times> string" where
  "parse_chars [] = Inl SyntaxError"
| "parse_chars (c # cs) =
     (if c = CHR 0x22 then Inr ([], cs)
      else if c = CHR 0x5C then
        (case cs of
           [] \<Rightarrow> Inl SyntaxError
         | e # es \<Rightarrow>
             if e = CHR ''u'' then
               (case es of
                  h1 # h2 # h3 # h4 # rest \<Rightarrow>
                    (case (hex_val h1, hex_val h2, hex_val h3, hex_val h4) of
                       (Some a, Some b, Some hi, Some lo) \<Rightarrow>
                         if a = 0 \<and> b = 0
                         then cons_result (char_of (hi * 16 + lo)) (parse_chars rest)
                         else Inl Unmodelled
                     | _ \<Rightarrow> Inl SyntaxError)
                | _ \<Rightarrow> Inl SyntaxError)
             else
               (case unescape e of
                  None \<Rightarrow> Inl SyntaxError
                | Some ch \<Rightarrow> cons_result ch (parse_chars es)))
      else if of_char c < (32::nat) then Inl SyntaxError
      else cons_result c (parse_chars cs))"

definition digits_value :: "string \<Rightarrow> nat" where
  "digits_value ds = foldl (\<lambda>acc c. 10 * acc + digit_val c) 0 ds"

definition parse_number :: "string \<Rightarrow> error + jsval \<times> string" where
  "parse_number text =
     (let neg = (text \<noteq> [] \<and> hd text = CHR ''-'');
          t1 = (if neg then tl text else text);
          ds = takeWhile is_digit t1;
          rest = dropWhile is_digit t1
      in if ds = [] then Inl SyntaxError
         else if 1 < length ds \<and> hd ds = CHR ''0'' then Inl SyntaxError
         else if rest \<noteq> [] \<and> (hd rest = CHR ''.'' \<or> hd rest = CHR ''e'' \<or> hd rest = CHR ''E'')
           then Inl Unmodelled
         else if MAX_SAFE_INTEGER < int (digits_value ds) then Inl Unmodelled
         else Inr (JNum (if neg then - int (digits_value ds) else int (digits_value ds)), rest))"

text \<open>
  The three readers call each other on the rest that the previous call returned. The tests
  \<^verbatim>\<open>length cs < length text\<close> make the recursion visibly decreasing; they always succeed
  (\<open>parse_elements_unguarded\<close>, \<open>parse_members_unguarded\<close>).
\<close>

function parse_value :: "string \<Rightarrow> error + jsval \<times> string"
  and parse_elements :: "jsval list \<Rightarrow> string \<Rightarrow> error + jsval \<times> string"
  and parse_members :: "(string \<times> jsval) list \<Rightarrow> string \<Rightarrow> error + jsval \<times> string"
where
  "parse_value text =
     (case skip_ws text of
        [] \<Rightarrow> Inl SyntaxError
      | c # cs \<Rightarrow>
          if c = CHR ''{'' then
            (case skip_ws cs of
               [] \<Rightarrow> Inl SyntaxError
             | d # ds \<Rightarrow> if d = CHR ''}'' then Inr (JObj [], ds) else parse_members [] (d # ds))
          else if c = CHR ''['' then
            (case skip_ws cs of
               [] \<Rightarrow> Inl SyntaxError
             | d # ds \<Rightarrow> if d = CHR '']'' then Inr (JArr [], ds) else parse_elements [] (d # ds))
          else if c = CHR 0x22 then
            (case parse_chars cs of Inl e \<Rightarrow> Inl e | Inr (s, rest) \<Rightarrow> Inr (JStr s, rest))
          else if take 4 (c # cs) = ''null'' then Inr (JNull, drop 3 cs)
          else if take 4 (c # cs) = ''true'' then Inr (JBool True, drop 3 cs)
          else if take 5 (c # cs) = ''false'' then Inr (JBool False, drop 4 cs)
          else if c = CHR ''-'' \<or> is_digit c then parse_number (c # cs)
          else Inl SyntaxError)"
| "parse_elements acc text =
     (case parse_value text of
        Inl e \<Rightarrow> Inl e
      | Inr (v, rest) \<Rightarrow>
          (case skip_ws rest of
             [] \<Rightarrow> Inl SyntaxError
           | c # cs \<Rightarrow>
               if c = CHR '']'' then Inr (JArr (acc @ [v]), cs)
               else if c = CHR '','' \<and> length cs < length text then parse_elements (acc @ [v]) cs
               else Inl SyntaxError))"
| "parse_members acc text =
     (case skip_ws text of
        [] \<Rightarrow> Inl SyntaxError
      | q # qs \<Rightarrow>
          if q = CHR 0x22 then
            (case parse_chars qs of
               Inl e \<Rightarrow> Inl e
             | Inr (k, r1) \<Rightarrow>
                 (case skip_ws r1 of
                    [] \<Rightarrow> Inl SyntaxError
                  | p # r2 \<Rightarrow>
                      if p = CHR '':'' \<and> length r2 < length text then
                        (case parse_value r2 of
                           Inl e \<Rightarrow> Inl e
                         | Inr (v, r3) \<Rightarrow>
                             (case skip_ws r3 of
                                [] \<Rightarrow> Inl SyntaxError
                              | c # cs \<Rightarrow>
                                  if c = CHR ''}'' then Inr (JObj (AList.update k v acc), cs)
                                  else if c = CHR '','' \<and> length cs < length text
                                    then parse_members (AList.update k v acc) cs
                                  else Inl SyntaxError))
                      else Inl SyntaxError))
          else Inl SyntaxError)"
  by pat_completeness auto
termination
proof (relation "measure (\<lambda>x. case x of
          Inl text \<Rightarrow> 2 * length text
        | Inr (Inl (acc, text)) \<Rightarrow> 2 * length text + 1
        | Inr (Inr (acc, text)) \<Rightarrow> 2 * length text + 1)", goal_cases)
  case 1
  show ?case by simp
next
  case (2 t c cs d ds)
  have "length (skip_ws t) \<le> length t" "length (skip_ws cs) \<le> length cs"
    by (simp_all add: skip_ws_def length_dropWhile_le)
  with 2 show ?case by simp
next
  case (3 t c cs d ds)
  have "length (skip_ws t) \<le> length t" "length (skip_ws cs) \<le> length cs"
    by (simp_all add: skip_ws_def length_dropWhile_le)
  with 3 show ?case by simp
qed simp_all

definition JSON_parse :: "string \<Rightarrow> error + jsval" where
  "JSON_parse text =
     (case parse_value text of
        Inl e \<Rightarrow> Inl e
      | Inr (v, rest) \<Rightarrow> if skip_ws rest = [] then Inr v else Inl SyntaxError)"

text \<open>
  The encodable values: integers within the safe range of a double, objects whose property
  names are pairwise distinct, and containers of encodable values.
\<close>

fun encodable :: "jsval \<Rightarrow> bool" where
  "encodable JNull = True"
| "encodable (JBool b) = True"
| "encodable (JNum n) = (\<bar>n\<bar> \<le> MAX_SAFE_INTEGER)"
| "encodable (JStr s) = True"
| "encodable (JArr xs) = list_all encodable xs"
| "encodable (JObj kvs) = (distinct (map fst kvs) \<and> list_all (\<lambda>kv. encodable (snd kv)) kvs)"

text \<open>The text that may follow a value inside a container: nothing, or a separator.\<close>

definition value_end :: "string \<Rightarrow> bool" where
  "value_end rest \<longleftrightarrow>
     (case rest of [] \<Rightarrow> True | c # _ \<Rightarrow> c = CHR '','' \<or> c = CHR '']'' \<or> c = CHR ''}'')"

definition member_text :: "string \<times> jsval \<Rightarrow> string" where
  "member_text kv = QuoteJSONString (fst kv) @ CHR '':'' # JSON_stringify (snd kv)"

section \<open>JavaScript operators used by the adapters\<close>

text \<open>The test \<^verbatim>\<open>if (x)\<close> / \<^verbatim>\<open>!x\<close>: null, false, 0 and the empty string are falsy.\<close>

fun truthy :: "jsval \<Rightarrow> bool" where
  "truthy JNull = False"
| "truthy (JBool b) = b"
| "truthy (JNum n) = (n \<noteq> 0)"
| "truthy (JStr s) = (s \<noteq> [])"
| "truthy (JArr xs) = True"
| "truthy (JObj kvs) = True"

text \<open>
  \<^verbatim>\<open>JSON.parse\<close> builds an object by defining its properties one after the other
  (CreateDataProperty): a name that is already there keeps its place and takes the new value,
  a new name is added at the end.
\<close>

definition create_props :: "(string \<times> jsval) list \<Rightarrow> (string \<times> jsval) list \<Rightarrow> (string \<times> jsval) list" where
  "create_props target props = foldl (\<lambda>a kv. AList.update (fst kv) (snd kv) a) target props"

text \<open>
  \<^verbatim>\<open>Object.assign(target, source)\<close> copies the own enumerable properties of the source onto the
  target, in order, by assignment (\<^verbatim>\<open>target[key] = value\<close>): a property the target has keeps
  its place and takes the new value, a new one is added at the end. The name \<^verbatim>\<open>__proto__\<close> is
  special: when the target has no own property of that name the assignment reaches the setter
  of \<^verbatim>\<open>Object.prototype\<close> and creates no property. The setter ignores a primitive value; given
  an object, an array or null it replaces the prototype of the target, which this value type
  cannot express. A number or boolean target is wrapped and the variable holding it is left
  as it was.
\<close>

fun own_props :: "jsval \<Rightarrow> (string \<times> jsval) list" where
  "own_props (JObj kvs) = kvs"
| "own_props (JArr xs) = zip (map nat_digits [0..<length xs]) xs"
| "own_props (JStr s) = zip (map nat_digits [0..<length s]) (map (\<lambda>c. JStr [c]) s)"
| "own_props v = []"

definition set_prop :: "string \<Rightarrow> jsval \<Rightarrow> (string \<times> jsval) list \<Rightarrow> (string \<times> jsval) list" where
  "set_prop k v target =
     (if k = ''__proto__'' \<and> map_of target k = None then target else AList.update k v target)"

definition assign_props :: "(string \<times> jsval) list \<Rightarrow> (string \<times> jsval) list \<Rightarrow> (string \<times> jsval) list" where
  "assign_props target props = foldl (\<lambda>a kv. set_prop (fst kv) (snd kv) a) target props"

fun is_primitive :: "jsval \<Rightarrow> bool" where
  "is_primitive (JBool b) = True"
| "is_primitive (JNum n) = True"
| "is_primitive (JStr s) = True"
| "is_primitive v = False"

definition sets_prototype :: "(string \<times> jsval) list \<Rightarrow> (string \<times> jsval) list \<Rightarrow> bool" where
  "sets_prototype target props \<longleftrightarrow>
     map_of target ''__proto__'' = None
     \<and> list_ex (\<lambda>kv. fst kv = ''__proto__'' \<and> \<not> is_primitive (snd kv)) props"

fun Object_assign :: "jsval \<Rightarrow> jsval \<Rightarrow> error + jsval" where
  "Object_assign (JObj kvs) source =
     (if sets_prototype kvs (own_props source) then Inl Unmodelled
      else Inr (JObj (assign_props kvs (own_props source))))"
| "Object_assign JNull source = Inl TypeError"
| "Object_assign (JBool b) source = Inr (JBool b)"
| "Object_assign (JNum n) source = Inr (JNum n)"
| "Object_assign (JStr s) source = Inl Unmodelled"
| "Object_assign (JArr xs) source = Inl Unmodelled"

section \<open>The backing store\<close>

text \<open>
  The Redis database as the adapters use it: string keys holding string payloads. The list
  keeps one entry per key; its order stands for the (unspecified) order in which KEYS
  enumerates. Every command succeeds: the error callbacks of the client, which stand for a
  lost connection, are outside the model.
\<close>

type_synonym store = "(string \<times> string) list"

text \<open>
  The glob patterns of the KEYS command: \<^verbatim>\<open>*\<close> matches any run of characters, \<^verbatim>\<open>?\<close> any one
  character, \<^verbatim>\<open>[...]\<close> one character of a class (with \<^verbatim>\<open>^\<close> for negation and \<^verbatim>\<open>a-z\<close> for
  ranges), a backslash quotes the next character.
\<close>

fun class_scan :: "string \<Rightarrow> char \<Rightarrow> bool \<Rightarrow> bool \<times> string" where
  "class_scan [] c m = (m, [])"
| "class_scan [p] c m = (if p = CHR '']'' then (m, []) else (m \<or> p = c, []))"
| "class_scan (p # q # ps) c m =
     (if p = CHR 0x5C then class_scan ps c (m \<or> q = c)
      else if p = CHR '']'' then (m, q # ps)
      else if q = CHR ''-'' then
        (case ps of
           [] \<Rightarrow> class_scan (q # ps) c (m \<or> p = c)
         | e # rest \<Rightarrow>
             class_scan rest c
               (m \<or> (min (of_char p) (of_char e) \<le> (of_char c :: nat)
                     \<and> (of_char c :: nat) \<le> max (of_char p) (of_char e))))
      else class_scan (q # ps) c (m \<or> p = c))"

function glob_match :: "string \<Rightarrow> string \<Rightarrow> bool" where
  "glob_match [] s = (s = [])"
| "glob_match (p # ps) s =
     (if p = CHR ''*'' then
        (if glob_match ps s then True
         else (case s of [] \<Rightarrow> False | c # s' \<Rightarrow> glob_match (p # ps) s'))
      else
        (case s of
           [] \<Rightarrow> False
         | c # s' \<Rightarrow>
             if p = CHR ''?'' then glob_match ps s'
             else if p = CHR ''['' then
               (let neg = (ps \<noteq> [] \<and> hd ps = CHR ''^'');
                    scanned = class_scan (if neg then tl ps else ps) c False
                in if fst scanned \<noteq> neg then glob_match (snd scanned) s' else False)
             else if p = CHR 0x5C \<and> ps \<noteq> [] then
               (if hd ps = c then glob_match (tl ps) s' else False)
             else (if p = c then glob_match ps s' else False)))"
  by pat_completeness auto
termination
  by (relation "measures [\<lambda>(p, s). length s, \<lambda>(p, s). length p]") auto

text \<open>The four commands. SET replies OK, GET replies nil for a missing key, DEL replies the
  number of keys it removed, KEYS replies the keys that match.\<close>

definition database_set :: "string \<Rightarrow> string \<Rightarrow> store \<Rightarrow> string \<times> store" where
  "database_set key payload s = (''OK'', AList.update key payload s)"

definition database_get :: "string \<Rightarrow> store \<Rightarrow> string option" where
  "database_get key s = map_of s key"

definition database_del :: "string \<Rightarrow> store \<Rightarrow> nat \<times> store" where
  "database_del key s = (if key \<in> fst ` set s then (1, AList.delete key s) else (0, s))"

definition database_keys :: "string \<Rightarrow> store \<Rightarrow> string list" where
  "database_keys pattern s = filter (glob_match pattern) (map fst s)"

section \<open>The promisified commands\<close>

text \<open>
  \<^verbatim>\<open>redisSet\<close>, \<^verbatim>\<open>redisGet\<close> and \<^verbatim>\<open>redisDelete\<close> have the same body in both adapters.

  \<^verbatim>\<open>redisSet\<close>: \<^verbatim>\<open>this.database.set(key, JSON.stringify(value), ...)\<close>, resolving to
  \<^verbatim>\<open>result === 'OK'\<close>.
\<close>

definition redisSet :: "string \<Rightarrow> jsval \<Rightarrow> store \<Rightarrow> bool \<times> store" where
  "redisSet key v s =
     (let (result, s') = database_set key (JSON_stringify v) s in (result = ''OK'', s'))"

text \<open>
  \<^verbatim>\<open>redisGet\<close>: \<^verbatim>\<open>this.database.get(key, (error, result = '') => ... JSON.parse(result))\<close>. For a
  missing key the reply is null; the default \<^verbatim>\<open>''\<close> stands in for undefined only, so
  \<^verbatim>\<open>JSON.parse\<close> receives null, reads it as the text \<^verbatim>\<open>null\<close> and yields null.
\<close>

definition redisGet :: "string \<Rightarrow> store \<Rightarrow> error + jsval" where
  "redisGet key s =
     JSON_parse (case database_get key s of None \<Rightarrow> ''null'' | Some result \<Rightarrow> result)"

text \<open>\<^verbatim>\<open>redisDelete\<close>: \<^verbatim>\<open>this.database.del([key], ...)\<close>, resolving to \<^verbatim>\<open>result === 1\<close>.\<close>

definition redisDelete :: "string \<Rightarrow> store \<Rightarrow> bool \<times> store" where
  "redisDelete key s = (let (result, s') = database_del key s in (result = 1, s'))"

section \<open>RedisDatabaseAdapter\<close>

definition RedisDatabaseAdapter_get :: "string \<Rightarrow> string \<Rightarrow> store \<Rightarrow> error + jsval" where
  "RedisDatabaseAdapter_get pfx key s = redisGet (getPrefixedKey pfx key) s"

definition RedisDatabaseAdapter_set ::
  "string \<Rightarrow> string \<Rightarrow> jsval \<Rightarrow> store \<Rightarrow> error + bool \<times> store" where
  "RedisDatabaseAdapter_set pfx key obj s =
     (case RedisDatabaseAdapter_get pfx key s of
        Inl e \<Rightarrow> Inl e
      | Inr found \<Rightarrow>
          if \<not> truthy found
          then Inr (True, snd (redisSet (getPrefixedKey pfx key) obj s))
          else Inr (False, s))"

definition RedisDatabaseAdapter_remove :: "string \<Rightarrow> string \<Rightarrow> store \<Rightarrow> bool \<times> store" where
  "RedisDatabaseAdapter_remove pfx key s = redisDelete (getPrefixedKey pfx key) s"

text \<open>
  \<^verbatim>\<open>redisGetAll(get, pattern)\<close>: the keys matching \<^verbatim>\<open>`${pattern}*`\<close>, then for each of them
  \<^verbatim>\<open>parsedObjects.push(new this.modelConstructor(await get(result)))\<close>. The model constructor
  is a parameter of the adapter.
\<close>

fun collect_models ::
  "(jsval \<Rightarrow> 'm) \<Rightarrow> (string \<Rightarrow> error + jsval) \<Rightarrow> string list \<Rightarrow> 'm list \<Rightarrow> error + 'm list" where
  "collect_models modelConstructor get [] parsedObjects = Inr parsedObjects"
| "collect_models modelConstructor get (result # results) parsedObjects =
     (case get result of
        Inl e \<Rightarrow> Inl e
      | Inr object \<Rightarrow>
          collect_models modelConstructor get results (parsedObjects @ [modelConstructor object]))"

definition RedisDatabaseAdapter_redisGetAll ::
  "(jsval \<Rightarrow> 'm) \<Rightarrow> (string \<Rightarrow> error + jsval) \<Rightarrow> string \<Rightarrow> store \<Rightarrow> error + 'm list" where
  "RedisDatabaseAdapter_redisGetAll modelConstructor get pattern s =
     collect_models modelConstructor get (database_keys (pattern @ ''*'') s) []"

definition RedisDatabaseAdapter_getAll ::
  "(jsval \<Rightarrow> 'm) \<Rightarrow> string \<Rightarrow> store \<Rightarrow> error + 'm list" where
  "RedisDatabaseAdapter_getAll modelConstructor pfx s =
     RedisDatabaseAdapter_redisGetAll modelConstructor (\<lambda>key. redisGet key s) pfx s"

text \<open>\<^verbatim>\<open>clear\<close>: \<^verbatim>\<open>redisClear\<close> deletes every key that matches \<^verbatim>\<open>*\<close>.\<close>

definition RedisDatabaseAdapter_clear :: "store \<Rightarrow> store" where
  "RedisDatabaseAdapter_clear s = foldl (\<lambda>s' result. snd (redisDelete result s')) s (database_keys ''*'' s)"

section \<open>DatabaseAdapter\<close>

text \<open>
  The second adapter. Its \<^verbatim>\<open>get\<close> is \<^verbatim>\<open>return this.redisGet(key);\<close>: the prefix is not used.
  \<^verbatim>\<open>set\<close> and \<^verbatim>\<open>update\<close> start their \<^verbatim>\<open>redisSet\<close> without awaiting it; the client sends its
  commands in the order they were issued, so the write is applied before any later command.
\<close>

definition DatabaseAdapter_get :: "string \<Rightarrow> string \<Rightarrow> store \<Rightarrow> error + jsval" where
  "DatabaseAdapter_get pfx key s = redisGet key s"

definition DatabaseAdapter_set ::
  "string \<Rightarrow> string \<Rightarrow> jsval \<Rightarrow> store \<Rightarrow> error + bool \<times> store" where
  "DatabaseAdapter_set pfx key obj s =
     (case DatabaseAdapter_get pfx key s of
        Inl e \<Rightarrow> Inl e
      | Inr found \<Rightarrow>
          if \<not> truthy found
          then Inr (True, snd (redisSet (concatKey pfx key) obj s))
          else Inr (False, s))"

definition DatabaseAdapter_update ::
  "string \<Rightarrow> string \<Rightarrow> jsval \<Rightarrow> store \<Rightarrow> error + jsval \<times> store" where
  "DatabaseAdapter_update pfx key update s =
     (case DatabaseAdapter_get pfx key s of
        Inl e \<Rightarrow> Inl e
      | Inr object \<Rightarrow>
          if truthy object then
            (case Object_assign object update of
               Inl e \<Rightarrow> Inl e
             | Inr assigned \<Rightarrow> Inr (assigned, snd (redisSet key assigned s)))
          else
            (case DatabaseAdapter_set pfx key update s of
               Inl e \<Rightarrow> Inl e
             | Inr (created, s') \<Rightarrow> Inr (update, s')))"

definition DatabaseAdapter_remove :: "string \<Rightarrow> string \<Rightarrow> store \<Rightarrow> bool \<times> store" where
  "DatabaseAdapter_remove pfx key s = redisDelete (concatKey pfx key) s"

text \<open>
  \<^verbatim>\<open>redisGetAll(pattern)\<close> of this adapter: \<^verbatim>\<open>this.database.keys(pattern, ...)\<close> without a
  wildcard, then \<^verbatim>\<open>results.map(result => JSON.parse(result))\<close> on the key names themselves.
\<close>

fun parse_all :: "string list \<Rightarrow> error + jsval list" where
  "parse_all [] = Inr []"
| "parse_all (result # results) =
     (case JSON_parse result of
        Inl e \<Rightarrow> Inl e
      | Inr parsed \<Rightarrow> (case parse_all results of Inl e \<Rightarrow> Inl e | Inr rest \<Rightarrow> Inr (parsed # rest)))"

definition DatabaseAdapter_redisGetAll :: "string \<Rightarrow> store \<Rightarrow> error + jsval list" where
  "DatabaseAdapter_redisGetAll pattern s = parse_all (database_keys pattern s)"

definition DatabaseAdapter_getAll :: "string \<Rightarrow> store \<Rightarrow> error + jsval list" where
  "DatabaseAdapter_getAll pfx s = DatabaseAdapter_redisGetAll pfx s"

text \<open>A prefix without glob metacharacters.\<close>

definition glob_free :: "string \<Rightarrow> bool" where
  "glob_free pfx = list_all (\<lambda>c. c \<noteq> CHR ''*'' \<and> c \<noteq> CHR ''?'' \<and> c \<noteq> CHR ''['' \<and> c \<noteq> CHR 0x5C) pfx"


section \<open>Properties of the key namespacing\<close>

lemma underscore_split_unique:
  assumes "p1 @ CHR ''_'' # k1 = p2 @ CHR ''_'' # k2"
    and "CHR ''_'' \<notin> set p1" and "CHR ''_'' \<notin> set p2"
  shows "p1 = p2 \<and> k1 = k2"
  using assms
proof (induction p1 arbitrary: p2)
  case Nil
  then show ?case by (cases p2) auto
next
  case (Cons a p1)
  then show ?case by (cases p2) auto
qed

text \<open>
  C6 (as amended). The physical key is a function of (prefix, key) alone. It is injective on
  the pairs whose prefixes do not contain the delimiter: for RedisDatabaseAdapter, two distinct
  pairs whose prefixes are free of the underscore get distinct physical keys; for
  DatabaseAdapter, which joins without a delimiter, two distinct pairs whose prefixes have the
  same length get distinct physical keys.
\<close>

theorem physical_key_injective_without_delimiter:
  "((p1, k1) \<noteq> (p2, k2) \<and> CHR ''_'' \<notin> set p1 \<and> CHR ''_'' \<notin> set p2
      \<longrightarrow> getPrefixedKey p1 k1 \<noteq> getPrefixedKey p2 k2)
   \<and> ((p1, k1) \<noteq> (p2, k2) \<and> length p1 = length p2
      \<longrightarrow> concatKey p1 k1 \<noteq> concatKey p2 k2)"
proof (intro conjI impI)
  assume h: "(p1, k1) \<noteq> (p2, k2) \<and> CHR ''_'' \<notin> set p1 \<and> CHR ''_'' \<notin> set p2"
  show "getPrefixedKey p1 k1 \<noteq> getPrefixedKey p2 k2"
  proof
    assume "getPrefixedKey p1 k1 = getPrefixedKey p2 k2"
    then have "p1 @ CHR ''_'' # k1 = p2 @ CHR ''_'' # k2"
      by (simp add: getPrefixedKey_def)
    with h have "p1 = p2 \<and> k1 = k2"
      using underscore_split_unique by blast
    with h show False by simp
  qed
next
  assume h: "(p1, k1) \<noteq> (p2, k2) \<and> length p1 = length p2"
  then show "concatKey p1 k1 \<noteq> concatKey p2 k2"
    by (auto simp: concatKey_def)
qed

theorem physical_key_injective_without_delimiter_witness:
  "(''user'', ''42'') \<noteq> (''session'', ''42'')
   \<and> CHR ''_'' \<notin> set ''user'' \<and> CHR ''_'' \<notin> set ''session''
   \<and> getPrefixedKey ''user'' ''42'' \<noteq> getPrefixedKey ''session'' ''42''
   \<and> (''user'', ''42'') \<noteq> (''item'', ''42'') \<and> length ''user'' = length ''item''
   \<and> concatKey ''user'' ''42'' \<noteq> concatKey ''item'' ''42''"
  using physical_key_injective_without_delimiter [of "''user''" "''42''" "''session''" "''42''"]
    physical_key_injective_without_delimiter [of "''user''" "''42''" "''item''" "''42''"]
  by simp

text \<open>
  C6 as stated fails: the underscore may occur in a prefix or a key, and then two distinct
  logical keys share one physical key.
\<close>

theorem physical_key_collision:
  "(''a_b'', ''c'') \<noteq> (''a'', ''b_c'')
   \<and> getPrefixedKey ''a_b'' ''c'' = getPrefixedKey ''a'' ''b_c''"
  by (simp add: getPrefixedKey_def)

section \<open>Decimal digits\<close>

declare nat_digits.simps [simp del]
declare parse_value.simps [simp del] parse_elements.simps [simp del] parse_members.simps [simp del]
declare glob_match.simps [simp del]

lemma digit_char_props:
  assumes "d < 10"
  shows "digit_val (digit_char d) = d" and "is_digit (digit_char d)"
proof -
  from assms have "d \<in> {0, 1, 2, 3, 4, 5, 6, 7, 8, 9}" by auto
  then show "digit_val (digit_char d) = d" and "is_digit (digit_char d)"
    by (auto simp: digit_char_def digit_val_def is_digit_def)
qed

lemma digits_value_snoc: "digits_value (ds @ [c]) = 10 * digits_value ds + digit_val c"
  by (simp add: digits_value_def)

lemma nat_digits_value: "digits_value (nat_digits n) = n"
proof (induction n rule: nat_digits.induct)
  case (1 n)
  show ?case
  proof (cases "n < 10")
    case True
    then show ?thesis
      by (subst nat_digits.simps) (simp add: digits_value_def digit_char_props)
  next
    case False
    with 1 show ?thesis
      by (subst nat_digits.simps) (simp add: digits_value_snoc digit_char_props)
  qed
qed

lemma nat_digits_all_digit: "c \<in> set (nat_digits n) \<Longrightarrow> is_digit c"
proof (induction n rule: nat_digits.induct)
  case (1 n)
  show ?case
  proof (cases "n < 10")
    case True
    with 1(2) show ?thesis
      by (subst (asm) nat_digits.simps) (simp add: digit_char_props)
  next
    case False
    with 1 show ?thesis
      by (subst (asm) (2) nat_digits.simps) (auto simp: digit_char_props)
  qed
qed

lemma nat_digits_nonempty: "nat_digits n \<noteq> []"
  by (subst nat_digits.simps) simp

lemma nat_digits_hd_nonzero: "0 < n \<Longrightarrow> hd (nat_digits n) \<noteq> CHR ''0''"
proof (induction n rule: nat_digits.induct)
  case (1 n)
  show ?case
  proof (cases "n < 10")
    case True
    with 1(2) have "n \<in> {1, 2, 3, 4, 5, 6, 7, 8, 9}" by auto
    then show ?thesis
      by (subst nat_digits.simps) (auto simp: digit_char_def)
  next
    case False
    then have "0 < n div 10" by simp
    with 1(1) False have "hd (nat_digits (n div 10)) \<noteq> CHR ''0''" by simp
    with False show ?thesis
      by (subst nat_digits.simps) (simp add: nat_digits_nonempty)
  qed
qed

lemma nat_digits_no_leading_zero:
  "1 < length (nat_digits n) \<Longrightarrow> hd (nat_digits n) \<noteq> CHR ''0''"
proof -
  assume long: "1 < length (nat_digits n)"
  have "0 < n"
  proof (rule ccontr)
    assume "\<not> 0 < n"
    then have "nat_digits n = [digit_char 0]" by (subst nat_digits.simps) simp
    with long show False by simp
  qed
  then show ?thesis by (rule nat_digits_hd_nonzero)
qed

section \<open>The readers consume their input\<close>

text \<open>
  Every reader returns a rest that is shorter than its input, so the length tests in
  \<^verbatim>\<open>parse_elements\<close> and \<^verbatim>\<open>parse_members\<close> always succeed: both functions satisfy the same
  equations without them.
\<close>

lemma skip_ws_Cons_shorter: "skip_ws t = c # cs \<Longrightarrow> length cs < length t"
proof -
  assume h: "skip_ws t = c # cs"
  have "length (skip_ws t) \<le> length t"
    by (simp add: skip_ws_def length_dropWhile_le)
  with h show ?thesis by simp
qed

lemma cons_result_Inr:
  "cons_result c r = Inr (s, rest) \<Longrightarrow> \<exists>s'. r = Inr (s', rest)"
  by (auto simp: cons_result_def split: sum.splits)

lemma parse_chars_shorter: "parse_chars cs = Inr (s, rest) \<Longrightarrow> length rest < length cs"
proof (induction cs arbitrary: s rule: length_induct)
  case (1 cs)
  then have IH: "\<And>ys s'. length ys < length cs \<Longrightarrow> parse_chars ys = Inr (s', rest)
      \<Longrightarrow> length rest < length ys"
    by blast
  show ?case
  proof (cases cs)
    case Nil
    with "1.prems" show ?thesis by simp
  next
    case (Cons c cs')
    with "1.prems" show ?thesis
      by (auto split: if_splits list.splits option.splits dest!: cons_result_Inr
          dest!: IH [rotated])
  qed
qed

lemma parse_number_shorter:
  "parse_number t = Inr (v, rest) \<Longrightarrow> length rest < length t"
proof -
  assume h: "parse_number t = Inr (v, rest)"
  let ?neg = "t \<noteq> [] \<and> hd t = CHR ''-''"
  let ?t1 = "if ?neg then tl t else t"
  from h have ds: "takeWhile is_digit ?t1 \<noteq> []" and rest: "rest = dropWhile is_digit ?t1"
    by (auto simp: parse_number_def Let_def split: if_splits)
  have "length (takeWhile is_digit ?t1) + length (dropWhile is_digit ?t1) = length ?t1"
    by (metis length_append takeWhile_dropWhile_id)
  with ds rest have "length rest < length ?t1"
    by (cases "takeWhile is_digit ?t1") auto
  then show ?thesis by (auto split: if_splits)
qed



lemma parse_value_unfold:
  assumes "skip_ws input = c # cs"
  shows "parse_value input =
          (if c = CHR ''{'' then
            (case skip_ws cs of
               [] \<Rightarrow> Inl SyntaxError
             | d # ds \<Rightarrow> if d = CHR ''}'' then Inr (JObj [], ds) else parse_members [] (d # ds))
          else if c = CHR ''['' then
            (case skip_ws cs of
               [] \<Rightarrow> Inl SyntaxError
             | d # ds \<Rightarrow> if d = CHR '']'' then Inr (JArr [], ds) else parse_elements [] (d # ds))
          else if c = CHR 0x22 then
            (case parse_chars cs of Inl e \<Rightarrow> Inl e | Inr (s, rest) \<Rightarrow> Inr (JStr s, rest))
          else if take 4 (c # cs) = ''null'' then Inr (JNull, drop 3 cs)
          else if take 4 (c # cs) = ''true'' then Inr (JBool True, drop 3 cs)
          else if take 5 (c # cs) = ''false'' then Inr (JBool False, drop 4 cs)
          else if c = CHR ''-'' \<or> is_digit c then parse_number (c # cs)
          else Inl SyntaxError)"
  by (subst parse_value.simps) (simp only: assms list.case)

lemma parse_value_shorter_step:
  assumes IHe: "\<And>t a v r. length t < length input \<Longrightarrow> parse_elements a t = Inr (v, r)
      \<Longrightarrow> length r < length t"
    and IHm: "\<And>t a v r. length t < length input \<Longrightarrow> parse_members a t = Inr (v, r)
      \<Longrightarrow> length r < length t"
    and h: "parse_value input = Inr (w, r)"
  shows "length r < length input"
proof (cases "skip_ws input")
  case Nil
  with h show ?thesis by (subst (asm) parse_value.simps) (simp only: list.case sum.distinct)
next
  case (Cons c cs)
  then have cs: "length cs < length input" by (rule skip_ws_Cons_shorter)
  note big = h [unfolded parse_value_unfold [OF Cons]]
  consider (obj) "c = CHR ''{''" | (arr) "c \<noteq> CHR ''{''" "c = CHR ''[''"
    | (str) "c \<noteq> CHR ''{''" "c \<noteq> CHR ''[''" "c = CHR 0x22"
    | (other) "c \<noteq> CHR ''{''" "c \<noteq> CHR ''[''" "c \<noteq> CHR 0x22"
    by blast
  then show ?thesis
  proof cases
    case obj
    with big have inner: "(case skip_ws cs of
               [] \<Rightarrow> Inl SyntaxError
             | d # ds \<Rightarrow> if d = CHR ''}'' then Inr (JObj [], ds) else parse_members [] (d # ds))
        = Inr (w, r)"
      by simp
    show ?thesis
    proof (cases "skip_ws cs")
      case Nil
      with inner show ?thesis by simp
    next
      case inner_cons: (Cons d ds)
      then have ds: "length ds < length cs" by (rule skip_ws_Cons_shorter)
      show ?thesis
      proof (cases "d = CHR ''}''")
        case True
        with inner inner_cons have "r = ds" by simp
        with ds cs show ?thesis by simp
      next
        case False
        with inner inner_cons have "parse_members [] (d # ds) = Inr (w, r)"
          by simp
        moreover have "length (d # ds) < length input" using ds cs by simp
        ultimately have "length r < length (d # ds)" using IHm by blast
        with ds cs show ?thesis by simp
      qed
    qed
  next
    case arr
    with big have inner: "(case skip_ws cs of
               [] \<Rightarrow> Inl SyntaxError
             | d # ds \<Rightarrow> if d = CHR '']'' then Inr (JArr [], ds) else parse_elements [] (d # ds))
        = Inr (w, r)"
      by simp
    show ?thesis
    proof (cases "skip_ws cs")
      case Nil
      with inner show ?thesis by simp
    next
      case inner_cons: (Cons d ds)
      then have ds: "length ds < length cs" by (rule skip_ws_Cons_shorter)
      show ?thesis
      proof (cases "d = CHR '']''")
        case True
        with inner inner_cons have "r = ds" by simp
        with ds cs show ?thesis by simp
      next
        case False
        with inner inner_cons have "parse_elements [] (d # ds) = Inr (w, r)"
          by simp
        moreover have "length (d # ds) < length input" using ds cs by simp
        ultimately have "length r < length (d # ds)" using IHe by blast
        with ds cs show ?thesis by simp
      qed
    qed
  next
    case str
    with big have "(case parse_chars cs of Inl e \<Rightarrow> Inl e | Inr (s, rest) \<Rightarrow> Inr (JStr s, rest))
        = Inr (w, r)"
      by simp
    then obtain s where "parse_chars cs = Inr (s, r)"
      by (auto split: sum.splits)
    then have "length r < length cs" by (rule parse_chars_shorter)
    with cs show ?thesis by simp
  next
    case other
    with big have "(if take 4 (c # cs) = ''null'' then Inr (JNull, drop 3 cs)
          else if take 4 (c # cs) = ''true'' then Inr (JBool True, drop 3 cs)
          else if take 5 (c # cs) = ''false'' then Inr (JBool False, drop 4 cs)
          else if c = CHR ''-'' \<or> is_digit c then parse_number (c # cs)
          else Inl SyntaxError) = Inr (w, r)"
      by simp
    then have "r = drop 3 cs \<or> r = drop 4 cs \<or> parse_number (c # cs) = Inr (w, r)"
      by (simp only: split: if_splits) auto
    then show ?thesis
      using cs Cons by (auto dest!: parse_number_shorter skip_ws_Cons_shorter)
  qed
qed


lemma readers_shorter:
  "(parse_value input = Inr (v, rest) \<longrightarrow> length rest < length input)
   \<and> (parse_elements acc input = Inr (v, rest) \<longrightarrow> length rest < length input)
   \<and> (parse_members accm input = Inr (v, rest) \<longrightarrow> length rest < length input)"
proof (induction input arbitrary: v rest acc accm rule: length_induct)
  case (1 input)
  have IHe: "\<And>t a v r. length t < length input \<Longrightarrow> parse_elements a t = Inr (v, r)
      \<Longrightarrow> length r < length t"
    using 1 by blast
  have IHm: "\<And>t a v r. length t < length input \<Longrightarrow> parse_members a t = Inr (v, r)
      \<Longrightarrow> length r < length t"
    using 1 by blast
  have IHv: "\<And>t v r. length t < length input \<Longrightarrow> parse_value t = Inr (v, r)
      \<Longrightarrow> length r < length t"
    using 1 by blast
  have val: "length r < length input" if h: "parse_value input = Inr (w, r)" for w r
    using IHe IHm h by (rule parse_value_shorter_step)
  have elems: "length r < length input" if h: "parse_elements a input = Inr (w, r)" for a w r
  proof -
    from h obtain x r1 where first: "parse_value input = Inr (x, r1)"
      by (subst (asm) parse_elements.simps) (auto split: sum.splits)
    then have r1: "length r1 < length input" by (rule val)
    from h first obtain c cs where sk: "skip_ws r1 = c # cs"
      by (subst (asm) parse_elements.simps) (auto split: list.splits)
    then have cs: "length cs < length r1" by (rule skip_ws_Cons_shorter)
    from h first sk have "r = cs \<or> parse_elements (a @ [x]) cs = Inr (w, r)"
      by (subst (asm) parse_elements.simps) (auto split: if_splits)
    then show ?thesis
    proof
      assume "r = cs"
      with cs r1 show ?thesis by simp
    next
      assume "parse_elements (a @ [x]) cs = Inr (w, r)"
      moreover have "length cs < length input" using cs r1 by simp
      ultimately have "length r < length cs" using IHe by blast
      with cs r1 show ?thesis by simp
    qed
  qed
  have membs: "length r < length input" if h: "parse_members a input = Inr (w, r)" for a w r
  proof -
    from h obtain q qs where sk0: "skip_ws input = q # qs" and q: "q = CHR 0x22"
      by (subst (asm) parse_members.simps) (auto split: list.splits if_splits)
    then have qs: "length qs < length input" by (simp add: skip_ws_Cons_shorter)
    from h sk0 q obtain k r1 where key: "parse_chars qs = Inr (k, r1)"
      by (subst (asm) parse_members.simps) (auto split: sum.splits)
    then have r1: "length r1 < length qs" by (rule parse_chars_shorter)
    from h sk0 q key obtain p r2 where sk1: "skip_ws r1 = p # r2" and p: "p = CHR '':''"
      by (subst (asm) parse_members.simps) (auto split: list.splits if_splits)
    then have r2: "length r2 < length r1" by (simp add: skip_ws_Cons_shorter)
    from h sk0 q key sk1 p obtain x r3 where val2: "parse_value r2 = Inr (x, r3)"
      by (subst (asm) parse_members.simps) (auto split: sum.splits if_splits)
    have "length r2 < length input" using r2 r1 qs by simp
    with val2 have r3: "length r3 < length r2" using IHv by blast
    from h sk0 q key sk1 p val2 obtain c cs where sk2: "skip_ws r3 = c # cs"
      by (subst (asm) parse_members.simps) (auto split: list.splits if_splits)
    then have cs: "length cs < length r3" by (rule skip_ws_Cons_shorter)
    from h sk0 q key sk1 p val2 sk2
    have "r = cs \<or> parse_members (AList.update k x a) cs = Inr (w, r)"
      by (subst (asm) parse_members.simps) (auto split: if_splits)
    then show ?thesis
    proof
      assume "r = cs"
      with cs r3 r2 r1 qs show ?thesis by simp
    next
      assume "parse_members (AList.update k x a) cs = Inr (w, r)"
      moreover have "length cs < length input" using cs r3 r2 r1 qs by simp
      ultimately have "length r < length cs" using IHm by blast
      with cs r3 r2 r1 qs show ?thesis by simp
    qed
  qed
  from val elems membs show ?case by blast
qed


lemma parse_value_shorter: "parse_value input = Inr (v, rest) \<Longrightarrow> length rest < length input"
  using readers_shorter [of input v rest] by blast

lemma parse_elements_unguarded:
  "parse_elements acc input =
     (case parse_value input of
        Inl e \<Rightarrow> Inl e
      | Inr (v, rest) \<Rightarrow>
          (case skip_ws rest of
             [] \<Rightarrow> Inl SyntaxError
           | c # cs \<Rightarrow>
               if c = CHR '']'' then Inr (JArr (acc @ [v]), cs)
               else if c = CHR '','' then parse_elements (acc @ [v]) cs
               else Inl SyntaxError))"
proof (cases "parse_value input")
  case (Inl e)
  then show ?thesis by (subst parse_elements.simps) simp
next
  case (Inr p)
  obtain v rest where p: "p = (v, rest)" by (cases p)
  with Inr have rest: "length rest < length input" by (simp add: parse_value_shorter)
  show ?thesis
  proof (cases "skip_ws rest")
    case Nil
    with Inr p show ?thesis by (subst parse_elements.simps) simp
  next
    case (Cons c cs)
    then have "length cs < length rest" by (rule skip_ws_Cons_shorter)
    with rest have "length cs < length input" by simp
    with Inr p Cons show ?thesis by (subst parse_elements.simps) simp
  qed
qed

lemma parse_members_unguarded:
  "parse_members acc input =
     (case skip_ws input of
        [] \<Rightarrow> Inl SyntaxError
      | q # qs \<Rightarrow>
          if q = CHR 0x22 then
            (case parse_chars qs of
               Inl e \<Rightarrow> Inl e
             | Inr (k, r1) \<Rightarrow>
                 (case skip_ws r1 of
                    [] \<Rightarrow> Inl SyntaxError
                  | p # r2 \<Rightarrow>
                      if p = CHR '':'' then
                        (case parse_value r2 of
                           Inl e \<Rightarrow> Inl e
                         | Inr (v, r3) \<Rightarrow>
                             (case skip_ws r3 of
                                [] \<Rightarrow> Inl SyntaxError
                              | c # cs \<Rightarrow>
                                  if c = CHR ''}'' then Inr (JObj (AList.update k v acc), cs)
                                  else if c = CHR '',''
                                    then parse_members (AList.update k v acc) cs
                                  else Inl SyntaxError))
                      else Inl SyntaxError))
          else Inl SyntaxError)"
proof -
  have colon: "length r2 < length input"
    if "skip_ws input = q # qs" "parse_chars qs = Inr (k, r1)" "skip_ws r1 = p # r2"
    for q qs k r1 p r2
  proof -
    have "length qs < length input" using that(1) by (rule skip_ws_Cons_shorter)
    moreover have "length r1 < length qs" using that(2) by (rule parse_chars_shorter)
    moreover have "length r2 < length r1" using that(3) by (rule skip_ws_Cons_shorter)
    ultimately show ?thesis by simp
  qed
  have comma: "length cs < length input"
    if "skip_ws input = q # qs" "parse_chars qs = Inr (k, r1)" "skip_ws r1 = p # r2"
      "parse_value r2 = Inr (v, r3)" "skip_ws r3 = c # cs"
    for q qs k r1 p r2 v r3 c cs
  proof -
    have "length r2 < length input" using that(1,2,3) by (rule colon)
    moreover have "length r3 < length r2" using that(4) by (rule parse_value_shorter)
    moreover have "length cs < length r3" using that(5) by (rule skip_ws_Cons_shorter)
    ultimately show ?thesis by simp
  qed
  show ?thesis
    by (subst parse_members.simps)
      (auto split: list.splits sum.splits simp: colon comma)
qed

section \<open>Reading back what was printed\<close>

lemma takeWhile_digits:
  assumes "\<And>c. c \<in> set ds \<Longrightarrow> is_digit c" and "rest = [] \<or> \<not> is_digit (hd rest)"
  shows "takeWhile is_digit (ds @ rest) = ds" and "dropWhile is_digit (ds @ rest) = rest"
proof -
  from assms(2) have "takeWhile is_digit rest = []" "dropWhile is_digit rest = rest"
    by (cases rest; auto)+
  with assms(1) show "takeWhile is_digit (ds @ rest) = ds" "dropWhile is_digit (ds @ rest) = rest"
    by (simp_all add: takeWhile_append2 dropWhile_append2)
qed

lemma value_end_props:
  assumes "value_end rest"
  shows "rest = [] \<or> \<not> is_digit (hd rest)"
    and "\<not> (rest \<noteq> [] \<and> (hd rest = CHR ''.'' \<or> hd rest = CHR ''e'' \<or> hd rest = CHR ''E''))"
    and "skip_ws rest = rest"
  using assms by (cases rest; auto simp: value_end_def is_digit_def skip_ws_def is_ws_def)+

lemma parse_number_text:
  assumes "value_end rest" and "\<bar>n\<bar> \<le> MAX_SAFE_INTEGER"
  shows "parse_number (number_text n @ rest) = Inr (JNum n, rest)"
proof -
  let ?m = "nat \<bar>n\<bar>"
  let ?ds = "nat_digits ?m"
  have tw: "takeWhile is_digit (?ds @ rest) = ?ds" "dropWhile is_digit (?ds @ rest) = rest"
    using takeWhile_digits [of ?ds rest] nat_digits_all_digit value_end_props(1) [OF assms(1)]
    by blast+
  have hd_digit: "is_digit (hd ?ds)"
    using nat_digits_all_digit [of "hd ?ds" ?m] nat_digits_nonempty [of ?m] by simp
  then have hd_not_minus: "hd ?ds \<noteq> CHR ''-''"
    by (auto simp: is_digit_def)
  have lead: "\<not> (1 < length ?ds \<and> hd ?ds = CHR ''0'')"
    using nat_digits_no_leading_zero [of ?m] by blast
  have safe: "\<not> MAX_SAFE_INTEGER < int (digits_value ?ds)"
    using assms(2) by (simp add: nat_digits_value)
  show ?thesis
  proof (cases "n < 0")
    case True
    then have shape: "number_text n @ rest = CHR ''-'' # ?ds @ rest"
      by (simp add: number_text_def abs_if)
    from True show ?thesis
      unfolding shape parse_number_def
      using tw lead safe value_end_props(2) [OF assms(1)] nat_digits_nonempty [of ?m]
      by (simp add: Let_def nat_digits_value)
  next
    case False
    then have shape: "number_text n @ rest = ?ds @ rest"
      by (simp add: number_text_def abs_if)
    have "hd (?ds @ rest) \<noteq> CHR ''-''"
      using hd_not_minus nat_digits_nonempty [of ?m] by simp
    with False show ?thesis
      unfolding shape parse_number_def
      using tw lead safe value_end_props(2) [OF assms(1)] nat_digits_nonempty [of ?m]
      by (simp add: Let_def nat_digits_value)
  qed
qed

lemma hex_val_digit_char: "d < 16 \<Longrightarrow> hex_val (digit_char d) = Some d"
proof -
  assume "d < 16"
  then have "d = 0 \<or> d = 1 \<or> d = 2 \<or> d = 3 \<or> d = 4 \<or> d = 5 \<or> d = 6 \<or> d = 7 \<or> d = 8
      \<or> d = 9 \<or> d = 10 \<or> d = 11 \<or> d = 12 \<or> d = 13 \<or> d = 14 \<or> d = 15"
    by arith
  then show ?thesis
    by (auto simp: digit_char_def hex_val_def)
qed

lemma parse_chars_quote_char:
  "parse_chars (quote_char c @ more) = cons_result c (parse_chars more)"
proof -
  let ?n = "of_char c :: nat"
  consider (special) "c \<in> {CHR 0x08, CHR 0x09, CHR 0x0A, CHR 0x0C, CHR 0x0D, CHR 0x22, CHR 0x5C}"
    | (control) "c \<notin> {CHR 0x08, CHR 0x09, CHR 0x0A, CHR 0x0C, CHR 0x0D, CHR 0x22, CHR 0x5C}" "?n < 32"
    | (plain) "c \<notin> {CHR 0x08, CHR 0x09, CHR 0x0A, CHR 0x0C, CHR 0x0D, CHR 0x22, CHR 0x5C}" "\<not> ?n < 32"
    by blast
  then show ?thesis
  proof cases
    case special
    then show ?thesis
      by (auto simp: quote_char_def unescape_def)
  next
    case control
    have hi: "hex_val (digit_char (?n div 16)) = Some (?n div 16)"
      using control(2) by (intro hex_val_digit_char) simp
    have lo: "hex_val (digit_char (?n mod 16)) = Some (?n mod 16)"
      by (intro hex_val_digit_char) simp
    have zero: "hex_val (CHR ''0'') = Some 0"
      by (simp add: hex_val_def)
    have recode: "char_of (?n div 16 * 16 + ?n mod 16) = c"
      by simp
    from control have "quote_char c =
        [CHR 0x5C, CHR ''u'', CHR ''0'', CHR ''0'', digit_char (?n div 16), digit_char (?n mod 16)]"
      by (simp add: quote_char_def)
    then show ?thesis
      by (simp add: hi lo zero recode)
  next
    case plain
    then have "quote_char c = [c]"
      by (simp add: quote_char_def)
    with plain show ?thesis by simp
  qed
qed

lemma parse_chars_quoted:
  "parse_chars (concat (map quote_char s) @ CHR 0x22 # rest) = Inr (s, rest)"
  by (induction s) (simp_all add: parse_chars_quote_char cons_result_def)

lemma stringify_hd:
  "\<exists>c cs. JSON_stringify v = c # cs \<and> \<not> is_ws c \<and> c \<noteq> CHR '']'' \<and> c \<noteq> CHR ''}''"
proof (cases v)
  case (JNum n)
  let ?ds = "nat_digits (nat \<bar>n\<bar>)"
  obtain d ds where ds: "?ds = d # ds"
    using nat_digits_nonempty [of "nat \<bar>n\<bar>"] by (cases ?ds) auto
  then have "is_digit d"
    using nat_digits_all_digit [of d "nat \<bar>n\<bar>"] by simp
  then have "\<not> is_ws d \<and> d \<noteq> CHR '']'' \<and> d \<noteq> CHR ''}''"
    by (auto simp: is_digit_def is_ws_def)
  with ds JNum show ?thesis
    by (cases "n < 0") (simp_all add: number_text_def is_ws_def abs_if)
qed (simp_all add: is_ws_def QuoteJSONString_def)

lemma parse_elements_commas:
  assumes "\<And>x rest. x \<in> set xs \<Longrightarrow> value_end rest
             \<Longrightarrow> parse_value (JSON_stringify x @ rest) = Inr (x, rest)"
    and "xs \<noteq> []"
  shows "parse_elements acc (commas (map JSON_stringify xs) @ CHR '']'' # rest)
           = Inr (JArr (acc @ xs), rest)"
  using assms
proof (induction xs arbitrary: acc)
  case Nil
  then show ?case by simp
next
  case (Cons x xs)
  show ?case
  proof (cases xs)
    case Nil
    have "parse_value (JSON_stringify x @ CHR '']'' # rest) = Inr (x, CHR '']'' # rest)"
      by (rule Cons.prems(1)) (simp_all add: value_end_def)
    with Nil show ?thesis
      by (subst parse_elements.simps) (simp add: skip_ws_def is_ws_def)
  next
    case (Cons y ys)
    let ?more = "commas (map JSON_stringify xs) @ CHR '']'' # rest"
    have first: "parse_value (JSON_stringify x @ CHR '','' # ?more) = Inr (x, CHR '','' # ?more)"
      by (rule Cons.prems(1)) (simp_all add: value_end_def)
    have later: "parse_elements (acc @ [x]) ?more = Inr (JArr ((acc @ [x]) @ xs), rest)"
      using Cons.prems(1) Cons by (intro Cons.IH) simp_all
    have shape: "commas (map JSON_stringify (x # xs)) @ CHR '']'' # rest
        = JSON_stringify x @ CHR '','' # ?more"
      using Cons by simp
    show ?thesis
      unfolding shape
      by (subst parse_elements.simps) (simp add: first later skip_ws_def is_ws_def)
  qed
qed

lemma parse_members_commas:
  assumes "\<And>k v rest. (k, v) \<in> set kvs \<Longrightarrow> value_end rest
             \<Longrightarrow> parse_value (JSON_stringify v @ rest) = Inr (v, rest)"
    and "kvs \<noteq> []"
  shows "parse_members acc (commas (map member_text kvs) @ CHR ''}'' # rest)
           = Inr (JObj (create_props acc kvs), rest)"
  using assms
proof (induction kvs arbitrary: acc)
  case Nil
  then show ?case by simp
next
  case (Cons kv kvs)
  obtain k v where kv: "kv = (k, v)" by (cases kv)
  have key: "\<And>more. parse_chars (concat (map quote_char k) @ CHR 0x22 # more) = Inr (k, more)"
    by (rule parse_chars_quoted)
  show ?case
  proof (cases kvs)
    case Nil
    have val: "parse_value (JSON_stringify v @ CHR ''}'' # rest) = Inr (v, CHR ''}'' # rest)"
      by (rule Cons.prems(1) [of k]) (simp_all add: value_end_def kv)
    have shape: "commas (map member_text (kv # kvs)) @ CHR ''}'' # rest
        = CHR 0x22 # concat (map quote_char k) @ CHR 0x22 # CHR '':'' # JSON_stringify v @ CHR ''}'' # rest"
      using Nil by (simp add: member_text_def kv QuoteJSONString_def)
    show ?thesis
      unfolding shape
      by (subst parse_members.simps)
        (simp add: key val skip_ws_def is_ws_def Nil kv create_props_def)
  next
    case (Cons kv' kvs')
    let ?more = "commas (map member_text kvs) @ CHR ''}'' # rest"
    have val: "parse_value (JSON_stringify v @ CHR '','' # ?more) = Inr (v, CHR '','' # ?more)"
      by (rule Cons.prems(1) [of k]) (simp_all add: value_end_def kv)
    have later: "parse_members (AList.update k v acc) ?more
        = Inr (JObj (create_props (AList.update k v acc) kvs), rest)"
    proof (rule Cons.IH)
      fix k' v' r
      assume "(k', v') \<in> set kvs" "value_end r"
      then show "parse_value (JSON_stringify v' @ r) = Inr (v', r)"
        by (intro Cons.prems(1) [of k']) simp_all
    next
      show "kvs \<noteq> []" using Cons by simp
    qed
    have shape: "commas (map member_text (kv # kvs)) @ CHR ''}'' # rest
        = CHR 0x22 # concat (map quote_char k) @ CHR 0x22 # CHR '':'' # JSON_stringify v @ CHR '','' # ?more"
      using Cons by (simp add: member_text_def kv QuoteJSONString_def)
    show ?thesis
      unfolding shape
      by (subst parse_members.simps)
        (simp add: key val later skip_ws_def is_ws_def kv create_props_def)
  qed
qed

lemma update_fresh: "k \<notin> fst ` set al \<Longrightarrow> AList.update k v al = al @ [(k, v)]"
  by (induction al) auto

lemma create_props_distinct:
  "distinct (map fst (acc @ kvs)) \<Longrightarrow> create_props acc kvs = acc @ kvs"
proof (induction kvs arbitrary: acc)
  case Nil
  then show ?case by (simp add: create_props_def)
next
  case (Cons kv kvs)
  have fresh: "fst kv \<notin> fst ` set acc"
    using Cons.prems by auto
  have "distinct (map fst ((acc @ [kv]) @ kvs))"
    using Cons.prems by simp
  then have "create_props (acc @ [kv]) kvs = (acc @ [kv]) @ kvs"
    by (rule Cons.IH)
  then show ?case
    by (simp add: update_fresh [OF fresh] create_props_def)
qed

lemma stringify_obj_shape:
  "JSON_stringify (JObj kvs) @ rest = CHR ''{'' # commas (map member_text kvs) @ CHR ''}'' # rest"
proof -
  have "(\<lambda>(k, v). QuoteJSONString k @ CHR '':'' # JSON_stringify v) = member_text"
    by (auto simp: member_text_def fun_eq_iff)
  then show ?thesis by simp
qed

lemma parse_value_stringify:
  "encodable v \<Longrightarrow> value_end rest \<Longrightarrow> parse_value (JSON_stringify v @ rest) = Inr (v, rest)"
proof (induction v arbitrary: rest)
  case JNull
  show ?case
    by (subst parse_value.simps) (simp add: skip_ws_def is_ws_def)
next
  case (JBool b)
  show ?case
    by (subst parse_value.simps) (simp add: skip_ws_def is_ws_def)
next
  case (JNum n)
  obtain c cs where shape: "number_text n = c # cs" and c: "c = CHR ''-'' \<or> is_digit c"
  proof (cases "n < 0")
    case True
    then show ?thesis using that by (simp add: number_text_def)
  next
    case False
    obtain d ds where "nat_digits (nat n) = d # ds"
      using nat_digits_nonempty [of "nat n"] by (cases "nat_digits (nat n)") auto
    moreover from this have "is_digit d"
      using nat_digits_all_digit [of d "nat n"] by simp
    ultimately show ?thesis using that False by (simp add: number_text_def)
  qed
  from c have plain: "\<not> is_ws c" "c \<noteq> CHR ''{''" "c \<noteq> CHR ''[''" "c \<noteq> CHR 0x22"
    "c \<noteq> CHR ''n''" "c \<noteq> CHR ''t''" "c \<noteq> CHR ''f''"
    by (auto simp: is_ws_def is_digit_def)
  have "parse_number (c # cs @ rest) = Inr (JNum n, rest)"
    using parse_number_text [of rest n] JNum shape by simp
  with c plain show ?case
    by (subst parse_value.simps) (simp add: shape skip_ws_def)
next
  case (JStr s)
  show ?case
    by (subst parse_value.simps)
      (simp add: skip_ws_def is_ws_def QuoteJSONString_def parse_chars_quoted)
next
  case (JArr xs)
  show ?case
  proof (cases "xs = []")
    case True
    then show ?thesis
      by (subst parse_value.simps) (simp add: skip_ws_def is_ws_def)
  next
    case False
    let ?body = "commas (map JSON_stringify xs) @ CHR '']'' # rest"
    have elems: "parse_elements [] ?body = Inr (JArr ([] @ xs), rest)"
    proof (rule parse_elements_commas [OF _ False])
      fix x r
      assume "x \<in> set xs" "value_end r"
      with JArr show "parse_value (JSON_stringify x @ r) = Inr (x, r)"
        by (simp add: list_all_iff)
    qed
    obtain x xs' where xs: "xs = x # xs'" using False by (cases xs) auto
    obtain c cs where c: "JSON_stringify x = c # cs" "\<not> is_ws c" "c \<noteq> CHR '']''"
      using stringify_hd [of x] by blast
    have "\<exists>ds. ?body = c # ds"
      using xs c(1) by (cases xs') auto
    then obtain ds where body: "?body = c # ds" ..
    show ?thesis
      using elems c(2,3)
      by (subst parse_value.simps) (simp add: skip_ws_def is_ws_def body)
  qed
next
  case (JObj kvs)
  show ?case
  proof (cases "kvs = []")
    case True
    then show ?thesis
      by (subst parse_value.simps) (simp add: skip_ws_def is_ws_def)
  next
    case False
    let ?body = "commas (map member_text kvs) @ CHR ''}'' # rest"
    have "parse_members [] ?body = Inr (JObj (create_props [] kvs), rest)"
    proof (rule parse_members_commas [OF _ False])
      fix k v r
      assume "(k, v) \<in> set kvs" "value_end r"
      with JObj show "parse_value (JSON_stringify v @ r) = Inr (v, r)"
        by (fastforce simp: list_all_iff)
    qed
    moreover have "create_props [] kvs = [] @ kvs"
      using JObj.prems(1) by (intro create_props_distinct) simp
    ultimately have members: "parse_members [] ?body = Inr (JObj kvs, rest)"
      by simp
    obtain kv kvs' where kvs: "kvs = kv # kvs'" using False by (cases kvs) auto
    have "\<exists>ds. ?body = CHR 0x22 # ds"
      using kvs by (cases kvs') (auto simp: member_text_def QuoteJSONString_def)
    then obtain ds where body: "?body = CHR 0x22 # ds" ..
    show ?thesis
      unfolding stringify_obj_shape
      using members
      by (subst parse_value.simps) (simp add: skip_ws_def is_ws_def body)
  qed
qed

lemma JSON_parse_stringify: "encodable v \<Longrightarrow> JSON_parse (JSON_stringify v) = Inr v"
  using parse_value_stringify [of v "[]"]
  by (simp add: JSON_parse_def value_end_def skip_ws_def)

section \<open>Evaluation rules for concrete inputs\<close>

lemmas codec_eval = JSON_parse_def skip_ws_def is_ws_def QuoteJSONString_def quote_char_def
  parse_number_def number_text_def digit_char_def is_digit_def digit_val_def digits_value_def
  hex_val_def unescape_def cons_result_def MAX_SAFE_INTEGER_def Let_def char_of_eq_iff
  nat_digits.simps parse_value.simps parse_elements.simps parse_members.simps

lemmas store_eval = database_set_def database_get_def database_del_def database_keys_def
  redisSet_def redisGet_def redisDelete_def getPrefixedKey_def concatKey_def

section \<open>The codec\<close>

text \<open>
  C7. For every encodable value (null, booleans, safe integers, strings, arrays and objects
  with distinct property names, nested to any depth), reading back with \<^verbatim>\<open>JSON.parse\<close> what
  \<^verbatim>\<open>JSON.stringify\<close> printed gives the value itself.
\<close>

theorem codec_round_trip: "encodable v \<Longrightarrow> JSON_parse (JSON_stringify v) = Inr v"
  by (rule JSON_parse_stringify)

theorem codec_round_trip_witness:
  "encodable (JObj [(''name'', JStr ''Ann''), (''tags'', JArr [JNum (- 30), JNull, JBool True])])
   \<and> JSON_parse (JSON_stringify
        (JObj [(''name'', JStr ''Ann''), (''tags'', JArr [JNum (- 30), JNull, JBool True])]))
     = Inr (JObj [(''name'', JStr ''Ann''), (''tags'', JArr [JNum (- 30), JNull, JBool True])])"
  using codec_round_trip
    [of "JObj [(''name'', JStr ''Ann''), (''tags'', JArr [JNum (- 30), JNull, JBool True])]"]
  by (simp add: MAX_SAFE_INTEGER_def)

section \<open>The promisified commands on the store\<close>

lemma JSON_parse_null: "JSON_parse ''null'' = Inr JNull"
  by (simp add: codec_eval)

lemma redisGet_absent: "map_of s key = None \<Longrightarrow> redisGet key s = Inr JNull"
  by (simp add: redisGet_def database_get_def JSON_parse_null)

lemma redisGet_payload: "map_of s key = Some payload \<Longrightarrow> redisGet key s = JSON_parse payload"
  by (simp add: redisGet_def database_get_def)

lemma redisSet_store: "redisSet key v s = (True, AList.update key (JSON_stringify v) s)"
  by (simp add: redisSet_def database_set_def)

lemma redisGet_after_redisSet:
  "encodable v \<Longrightarrow> redisGet key (snd (redisSet key v s)) = Inr v"
  by (simp add: redisSet_store redisGet_def database_get_def update_conv' JSON_parse_stringify)

lemma redisDelete_store:
  "redisDelete key s = (key \<in> fst ` set s, AList.delete key s)"
  by (simp add: redisDelete_def database_del_def delete_id)

lemma redisGet_after_redisDelete: "redisGet key (snd (redisDelete key s)) = Inr JNull"
  by (simp add: redisDelete_store redisGet_absent delete_conv')

section \<open>Reading after writing\<close>

lemma RedisDatabaseAdapter_get_after_set:
  assumes "RedisDatabaseAdapter_set pfx key v s = Inr (True, s')" and "encodable v"
  shows "RedisDatabaseAdapter_get pfx key s' = Inr v"
proof -
  from assms(1) have "s' = snd (redisSet (getPrefixedKey pfx key) v s)"
    by (auto simp: RedisDatabaseAdapter_set_def split: sum.splits if_splits)
  with assms(2) show ?thesis
    by (simp add: RedisDatabaseAdapter_get_def redisGet_after_redisSet)
qed

text \<open>
  C1. In RedisDatabaseAdapter a successful \<^verbatim>\<open>set\<close> is read back by \<^verbatim>\<open>get\<close>
  (\<open>RedisDatabaseAdapter_get_after_set\<close>). In DatabaseAdapter it is not: on the empty store
  \<^verbatim>\<open>set("user", "42", {name: "Ann"})\<close> returns true and writes the key \<^verbatim>\<open>user42\<close>, and the
  \<^verbatim>\<open>get("user", "42")\<close> that follows reads the key \<^verbatim>\<open>42\<close> and returns null.
\<close>

theorem DatabaseAdapter_get_after_set_misses:
  "DatabaseAdapter_set ''user'' ''42'' (JObj [(''name'', JStr ''Ann'')]) []
     = Inr (True, [(''user42'', JSON_stringify (JObj [(''name'', JStr ''Ann'')]))])
   \<and> DatabaseAdapter_get ''user'' ''42''
       [(''user42'', JSON_stringify (JObj [(''name'', JStr ''Ann'')]))] = Inr JNull"
  by (simp add: DatabaseAdapter_set_def DatabaseAdapter_get_def store_eval JSON_parse_null)

section \<open>Create-if-absent\<close>

lemma falsy_iff: "\<not> truthy v \<longleftrightarrow> v \<in> {JNull, JBool False, JNum 0, JStr []}"
  by (cases v) auto

text \<open>
  What the existence check of \<^verbatim>\<open>RedisDatabaseAdapter.set\<close> does: a payload that decodes to a
  truthy value is left alone, a payload that decodes to null, false, 0 or the empty string is
  written over.
\<close>

lemma RedisDatabaseAdapter_set_keeps_truthy:
  assumes "map_of s (getPrefixedKey pfx key) = Some payload"
    and "JSON_parse payload = Inr found" and "truthy found"
  shows "RedisDatabaseAdapter_set pfx key v s = Inr (False, s)"
  using assms
  by (simp add: RedisDatabaseAdapter_set_def RedisDatabaseAdapter_get_def redisGet_payload)

lemma RedisDatabaseAdapter_set_overwrites_falsy:
  assumes "map_of s (getPrefixedKey pfx key) = Some payload"
    and "JSON_parse payload = Inr found" and "found \<in> {JNull, JBool False, JNum 0, JStr []}"
  shows "RedisDatabaseAdapter_set pfx key v s
           = Inr (True, AList.update (getPrefixedKey pfx key) (JSON_stringify v) s)"
    and "map_of (AList.update (getPrefixedKey pfx key) (JSON_stringify v) s)
           (getPrefixedKey pfx key) = Some (JSON_stringify v)"
proof -
  from assms(3) have "\<not> truthy found"
    by (simp add: falsy_iff)
  with assms(1,2) show "RedisDatabaseAdapter_set pfx key v s
      = Inr (True, AList.update (getPrefixedKey pfx key) (JSON_stringify v) s)"
    by (simp add: RedisDatabaseAdapter_set_def RedisDatabaseAdapter_get_def redisGet_payload
        redisSet_store)
  show "map_of (AList.update (getPrefixedKey pfx key) (JSON_stringify v) s)
      (getPrefixedKey pfx key) = Some (JSON_stringify v)"
    by (simp add: update_conv')
qed

text \<open>
  C2. \<^verbatim>\<open>set\<close> on a present key does write, in both adapters. In DatabaseAdapter, on the spec's
  own scenario: \<^verbatim>\<open>set("user", "42", {name: "Ann"})\<close> creates the key \<^verbatim>\<open>user42\<close>, and
  \<^verbatim>\<open>set("user", "42", {name: "Bob"})\<close> looks for the raw key \<^verbatim>\<open>42\<close>, finds nothing, returns true
  and replaces Ann by Bob. In RedisDatabaseAdapter: \<^verbatim>\<open>set("user", "42", 0)\<close> creates the key
  \<^verbatim>\<open>user_42\<close> holding \<^verbatim>\<open>0\<close>, and \<^verbatim>\<open>set("user", "42", {name: "Bob"})\<close> finds a falsy value,
  returns true and replaces the payload.
\<close>

theorem set_overwrites_present_key:
  "DatabaseAdapter_set ''user'' ''42'' (JObj [(''name'', JStr ''Ann'')]) []
     = Inr (True, [(''user42'', JSON_stringify (JObj [(''name'', JStr ''Ann'')]))])
   \<and> DatabaseAdapter_set ''user'' ''42'' (JObj [(''name'', JStr ''Bob'')])
       [(''user42'', JSON_stringify (JObj [(''name'', JStr ''Ann'')]))]
     = Inr (True, [(''user42'', JSON_stringify (JObj [(''name'', JStr ''Bob'')]))])
   \<and> RedisDatabaseAdapter_set ''user'' ''42'' (JNum 0) []
     = Inr (True, [(''user_42'', ''0'')])
   \<and> RedisDatabaseAdapter_set ''user'' ''42'' (JObj [(''name'', JStr ''Bob'')])
       [(''user_42'', ''0'')]
     = Inr (True, [(''user_42'', JSON_stringify (JObj [(''name'', JStr ''Bob'')]))])"
  by (simp add: DatabaseAdapter_set_def DatabaseAdapter_get_def RedisDatabaseAdapter_set_def
      RedisDatabaseAdapter_get_def store_eval codec_eval)


section \<open>Removing\<close>

lemma RedisDatabaseAdapter_remove_present:
  "fst (RedisDatabaseAdapter_remove pfx key s) \<longleftrightarrow> getPrefixedKey pfx key \<in> fst ` set s"
  by (simp add: RedisDatabaseAdapter_remove_def redisDelete_store)

lemma RedisDatabaseAdapter_get_after_remove:
  "RedisDatabaseAdapter_get pfx key (snd (RedisDatabaseAdapter_remove pfx key s)) = Inr JNull"
  by (simp add: RedisDatabaseAdapter_remove_def RedisDatabaseAdapter_get_def
      redisGet_after_redisDelete)

lemma DatabaseAdapter_remove_present:
  "fst (DatabaseAdapter_remove pfx key s) \<longleftrightarrow> concatKey pfx key \<in> fst ` set s"
  by (simp add: DatabaseAdapter_remove_def redisDelete_store)

text \<open>
  C8. Both adapters return true from \<^verbatim>\<open>remove\<close> exactly when the physical key was in the
  store (\<open>RedisDatabaseAdapter_remove_present\<close>, \<open>DatabaseAdapter_remove_present\<close>), and in
  RedisDatabaseAdapter the \<^verbatim>\<open>get\<close> that follows returns null
  (\<open>RedisDatabaseAdapter_get_after_remove\<close>). In DatabaseAdapter it need not: after
  \<^verbatim>\<open>set("user", "42", {})\<close> and \<^verbatim>\<open>set("4", "2", {x: 1})\<close> the store holds the keys \<^verbatim>\<open>user42\<close>
  and \<^verbatim>\<open>42\<close>; \<^verbatim>\<open>remove("user", "42")\<close> deletes \<^verbatim>\<open>user42\<close> and returns true, and
  \<^verbatim>\<open>get("user", "42")\<close> then returns the object stored under \<^verbatim>\<open>42\<close>.
\<close>

theorem DatabaseAdapter_get_after_remove_finds:
  "DatabaseAdapter_set ''user'' ''42'' (JObj []) []
     = Inr (True, [(''user42'', JSON_stringify (JObj []))])
   \<and> DatabaseAdapter_set ''4'' ''2'' (JObj [(''x'', JNum 1)])
       [(''user42'', JSON_stringify (JObj []))]
     = Inr (True,
        [(''user42'', JSON_stringify (JObj [])), (''42'', JSON_stringify (JObj [(''x'', JNum 1)]))])
   \<and> DatabaseAdapter_remove ''user'' ''42''
       [(''user42'', JSON_stringify (JObj [])), (''42'', JSON_stringify (JObj [(''x'', JNum 1)]))]
     = (True, [(''42'', JSON_stringify (JObj [(''x'', JNum 1)]))])
   \<and> DatabaseAdapter_get ''user'' ''42'' [(''42'', JSON_stringify (JObj [(''x'', JNum 1)]))]
     = Inr (JObj [(''x'', JNum 1)])"
  by (simp add: DatabaseAdapter_set_def DatabaseAdapter_remove_def DatabaseAdapter_get_def
      store_eval codec_eval)

section \<open>Prefix independence of the second adapter's read\<close>

text \<open>
  C10. \<^verbatim>\<open>DatabaseAdapter.get\<close> does not depend on its prefix argument: for every store, key
  and pair of prefixes the two reads give the same result.
\<close>

theorem DatabaseAdapter_get_ignores_prefix:
  "DatabaseAdapter_get p1 key s = DatabaseAdapter_get p2 key s"
  by (simp add: DatabaseAdapter_get_def)

section \<open>Updating\<close>

lemma assign_props_plain:
  "map_of props ''__proto__'' = None \<Longrightarrow> assign_props target props = create_props target props"
proof (induction props arbitrary: target)
  case Nil
  show ?case by (simp add: assign_props_def create_props_def)
next
  case (Cons kv props)
  from Cons.prems have name: "fst kv \<noteq> ''__proto__''" and rest: "map_of props ''__proto__'' = None"
    by (cases kv; simp split: if_splits)+
  have "assign_props (AList.update (fst kv) (snd kv) target) props
      = create_props (AList.update (fst kv) (snd kv) target) props"
    using rest by (rule Cons.IH)
  with name show ?case
    by (simp add: assign_props_def create_props_def set_prop_def)
qed

lemma no_prototype_set:
  "map_of props ''__proto__'' = None \<Longrightarrow> \<not> sets_prototype target props"
  by (force simp: sets_prototype_def list_ex_iff map_of_eq_None_iff)

lemma create_props_lookup:
  "distinct (map fst props) \<Longrightarrow>
   map_of (create_props target props) k
     = (case map_of props k of Some v \<Rightarrow> Some v | None \<Rightarrow> map_of target k)"
proof (induction props arbitrary: target)
  case Nil
  then show ?case by (simp add: create_props_def)
next
  case (Cons kv props)
  obtain k' v' where kv: "kv = (k', v')" by (cases kv)
  from Cons.prems kv have fresh: "map_of props k' = None"
    by (simp add: map_of_eq_None_iff)
  have step: "create_props target (kv # props) = create_props (AList.update k' v' target) props"
    by (simp add: create_props_def kv)
  have later: "map_of (create_props (AList.update k' v' target) props) k
      = (case map_of props k of Some v \<Rightarrow> Some v | None \<Rightarrow> map_of (AList.update k' v' target) k)"
    using Cons.prems by (intro Cons.IH) simp
  show ?case
    unfolding step later
    using fresh by (cases "k = k'") (simp_all add: kv update_conv' split: option.splits)
qed

text \<open>
  What \<^verbatim>\<open>update\<close> does with the object it finds under the raw key, for a partial that has no
  property named \<^verbatim>\<open>__proto__\<close>: the merged object has the partial's value for every property
  of the partial and the found object's value for every other property, it is written back
  under the raw key, and \<^verbatim>\<open>get\<close> returns it afterwards.
\<close>

lemma DatabaseAdapter_update_merges:
  assumes "map_of s key = Some payload" and "JSON_parse payload = Inr (JObj found)"
    and "distinct (map fst partial)" and "map_of partial ''__proto__'' = None"
  shows "\<exists>merged s'. DatabaseAdapter_update pfx key (JObj partial) s = Inr (JObj merged, s')
           \<and> (\<forall>k v. map_of partial k = Some v \<longrightarrow> map_of merged k = Some v)
           \<and> (\<forall>k. map_of partial k = None \<longrightarrow> map_of merged k = map_of found k)
           \<and> (encodable (JObj merged) \<longrightarrow> DatabaseAdapter_get pfx key s' = Inr (JObj merged))"
proof -
  let ?merged = "create_props found partial"
  let ?s' = "snd (redisSet key (JObj ?merged) s)"
  have "DatabaseAdapter_update pfx key (JObj partial) s = Inr (JObj ?merged, ?s')"
    using assms(1,2)
    by (simp add: DatabaseAdapter_update_def DatabaseAdapter_get_def redisGet_payload
        no_prototype_set [OF assms(4)] assign_props_plain [OF assms(4)])
  moreover have "\<forall>k v. map_of partial k = Some v \<longrightarrow> map_of ?merged k = Some v"
    by (simp add: create_props_lookup [OF assms(3)])
  moreover have "\<forall>k. map_of partial k = None \<longrightarrow> map_of ?merged k = map_of found k"
    by (simp add: create_props_lookup [OF assms(3)])
  moreover have "encodable (JObj ?merged) \<longrightarrow> DatabaseAdapter_get pfx key ?s' = Inr (JObj ?merged)"
    by (simp add: DatabaseAdapter_get_def redisGet_after_redisSet)
  ultimately show ?thesis by blast
qed

text \<open>
  A property named \<^verbatim>\<open>__proto__\<close> in the partial is not copied onto an object that has none.
\<close>

lemma Object_assign_drops_proto:
  "Object_assign (JObj [(''name'', JStr ''Ann'')]) (JObj [(''__proto__'', JNum 1), (''age'', JNum 30)])
     = Inr (JObj [(''name'', JStr ''Ann''), (''age'', JNum 30)])"
  by (simp add: sets_prototype_def assign_props_def set_prop_def)

text \<open>
  When \<^verbatim>\<open>get\<close> finds nothing (or a falsy value), \<^verbatim>\<open>update\<close> does what \<^verbatim>\<open>set\<close> does and returns
  the partial as it is.
\<close>

lemma DatabaseAdapter_update_absent_is_set:
  assumes "DatabaseAdapter_get pfx key s = Inr found" and "\<not> truthy found"
  shows "\<exists>s'. DatabaseAdapter_set pfx key partial s = Inr (True, s')
           \<and> DatabaseAdapter_update pfx key partial s = Inr (partial, s')"
  using assms by (simp add: DatabaseAdapter_update_def DatabaseAdapter_set_def)

text \<open>
  C3. The record \<^verbatim>\<open>{name: "Ann"}\<close> is created by \<^verbatim>\<open>set("user", "42", ...)\<close> and so held by the
  physical key \<^verbatim>\<open>user42\<close>. \<^verbatim>\<open>update("user", "42", {age: 30})\<close> looks for it under the raw key
  \<^verbatim>\<open>42\<close>, finds nothing, takes the branch for an absent key and returns \<^verbatim>\<open>{age: 30}\<close> alone;
  the stored record is replaced by \<^verbatim>\<open>{age: 30}\<close>, the property \<^verbatim>\<open>name\<close> is lost, and the
  \<^verbatim>\<open>get\<close> that follows returns null.
\<close>

theorem DatabaseAdapter_update_drops_stored_fields:
  "DatabaseAdapter_set ''user'' ''42'' (JObj [(''name'', JStr ''Ann'')]) []
     = Inr (True, [(''user42'', JSON_stringify (JObj [(''name'', JStr ''Ann'')]))])
   \<and> DatabaseAdapter_update ''user'' ''42'' (JObj [(''age'', JNum 30)])
       [(''user42'', JSON_stringify (JObj [(''name'', JStr ''Ann'')]))]
     = Inr (JObj [(''age'', JNum 30)], [(''user42'', JSON_stringify (JObj [(''age'', JNum 30)]))])
   \<and> DatabaseAdapter_get ''user'' ''42''
       [(''user42'', JSON_stringify (JObj [(''age'', JNum 30)]))] = Inr JNull"
  by (simp add: DatabaseAdapter_update_def DatabaseAdapter_set_def DatabaseAdapter_get_def
      store_eval JSON_parse_null)

text \<open>
  C4. The logical key (user, 42) is absent: the store holds the key \<^verbatim>\<open>42\<close> only, written by
  \<^verbatim>\<open>set("4", "2", {x: 1})\<close>. \<^verbatim>\<open>update("user", "42", {age: 30})\<close> finds the object under the raw
  key \<^verbatim>\<open>42\<close>, merges into it, writes the key \<^verbatim>\<open>42\<close> and returns \<^verbatim>\<open>{x: 1, age: 30}\<close>, not the
  partial; \<^verbatim>\<open>set("user", "42", {age: 30})\<close> on the same store writes nothing.
\<close>

theorem DatabaseAdapter_update_absent_merges_elsewhere:
  "DatabaseAdapter_set ''4'' ''2'' (JObj [(''x'', JNum 1)]) []
     = Inr (True, [(''42'', JSON_stringify (JObj [(''x'', JNum 1)]))])
   \<and> map_of [(''42'', JSON_stringify (JObj [(''x'', JNum 1)]))] (concatKey ''user'' ''42'') = None
   \<and> DatabaseAdapter_update ''user'' ''42'' (JObj [(''age'', JNum 30)])
       [(''42'', JSON_stringify (JObj [(''x'', JNum 1)]))]
     = Inr (JObj [(''x'', JNum 1), (''age'', JNum 30)],
            [(''42'', JSON_stringify (JObj [(''x'', JNum 1), (''age'', JNum 30)]))])
   \<and> DatabaseAdapter_set ''user'' ''42'' (JObj [(''age'', JNum 30)])
       [(''42'', JSON_stringify (JObj [(''x'', JNum 1)]))]
     = Inr (False, [(''42'', JSON_stringify (JObj [(''x'', JNum 1)]))])"
  by (simp add: DatabaseAdapter_update_def DatabaseAdapter_set_def DatabaseAdapter_get_def
      store_eval codec_eval assign_props_def set_prop_def sets_prototype_def)

section \<open>Listing by prefix\<close>

lemma glob_match_star: "glob_match ''*'' s"
proof (induction s)
  case Nil
  show ?case by (simp add: glob_match.simps)
next
  case (Cons c s)
  then show ?case by (subst glob_match.simps) simp
qed

lemma glob_match_literal_prefix:
  "glob_free pfx \<Longrightarrow> glob_match (pfx @ ''*'') key \<longleftrightarrow> prefix pfx key"
proof (induction pfx arbitrary: key)
  case Nil
  show ?case using glob_match_star by simp
next
  case (Cons p ps)
  then have plain: "p \<noteq> CHR ''*''" "p \<noteq> CHR ''?''" "p \<noteq> CHR ''[''" "p \<noteq> CHR 0x5C"
    and rest: "glob_free ps"
    by (simp_all add: glob_free_def)
  show ?case
  proof (cases key)
    case Nil
    have "\<not> glob_match (p # ps @ ''*'') []"
      using plain by (subst glob_match.simps) simp
    with Nil show ?thesis by simp
  next
    case (Cons c key')
    have "glob_match (p # ps @ ''*'') (c # key') \<longleftrightarrow> p = c \<and> glob_match (ps @ ''*'') key'"
      using plain by (subst glob_match.simps) simp
    with Cons Cons.IH [OF rest, of key'] show ?thesis
      by simp
  qed
qed

lemma RedisDatabaseAdapter_set_on_absent:
  "map_of s (getPrefixedKey pfx key) = None \<Longrightarrow>
   RedisDatabaseAdapter_set pfx key v s
     = Inr (True, s @ [(getPrefixedKey pfx key, JSON_stringify v)])"
  by (simp add: RedisDatabaseAdapter_set_def RedisDatabaseAdapter_get_def redisGet_absent
      redisSet_store update_fresh map_of_eq_None_iff)

text \<open>
  What \<^verbatim>\<open>RedisDatabaseAdapter.getAll\<close> returns. Starting from the empty store, records are
  inserted at (prefix, "a"), (prefix, "b") and (otherPrefix, "c"). If the prefix has no glob
  metacharacter and is not an initial segment of the third physical key \<^verbatim>\<open>otherPrefix_c\<close>,
  then \<^verbatim>\<open>getAll(prefix)\<close> returns exactly the two models constructed from the records decoded
  under (prefix, "a") and (prefix, "b"), in some order.
\<close>

lemma RedisDatabaseAdapter_getAll_two_of_three:
  assumes "RedisDatabaseAdapter_set pfx ''a'' r1 [] = Inr (True, s1)"
    and "RedisDatabaseAdapter_set pfx ''b'' r2 s1 = Inr (True, s2)"
    and "RedisDatabaseAdapter_set other ''c'' r3 s2 = Inr (True, s3)"
    and "encodable r1" and "encodable r2"
    and "glob_free pfx" and "\<not> prefix pfx (getPrefixedKey other ''c'')"
  shows "\<exists>models. RedisDatabaseAdapter_getAll modelConstructor pfx s3 = Inr models
           \<and> mset models = {#modelConstructor r1, modelConstructor r2#}"
proof -
  let ?ka = "getPrefixedKey pfx ''a''" and ?kb = "getPrefixedKey pfx ''b''"
  let ?kc = "getPrefixedKey other ''c''"
  have distinct_keys: "?ka \<noteq> ?kb" "?kc \<noteq> ?ka" "?kc \<noteq> ?kb"
    by (simp_all add: getPrefixedKey_def)
  have s1: "s1 = [(?ka, JSON_stringify r1)]"
    using assms(1) RedisDatabaseAdapter_set_on_absent [of "[]" pfx "''a''" r1] by simp
  have s2: "s2 = [(?ka, JSON_stringify r1), (?kb, JSON_stringify r2)]"
    using assms(2) distinct_keys RedisDatabaseAdapter_set_on_absent [of s1 pfx "''b''" r2]
    by (simp add: s1)
  have s3: "s3 = [(?ka, JSON_stringify r1), (?kb, JSON_stringify r2), (?kc, JSON_stringify r3)]"
    using assms(3) distinct_keys RedisDatabaseAdapter_set_on_absent [of s2 other "''c''" r3]
    by (simp add: s2)
  have matches: "glob_match (pfx @ ''*'') ?ka" "glob_match (pfx @ ''*'') ?kb"
    "\<not> glob_match (pfx @ ''*'') ?kc"
    using assms(7) by (simp_all add: glob_match_literal_prefix [OF assms(6)] getPrefixedKey_def)
  have keys: "database_keys (pfx @ ''*'') s3 = [?ka, ?kb]"
    by (simp add: database_keys_def s3 matches)
  have reads: "redisGet ?ka s3 = Inr r1" "redisGet ?kb s3 = Inr r2"
    using distinct_keys assms(4,5)
    by (simp_all add: s3 redisGet_def database_get_def JSON_parse_stringify)
  have "RedisDatabaseAdapter_getAll modelConstructor pfx s3
      = Inr [modelConstructor r1, modelConstructor r2]"
    by (simp add: RedisDatabaseAdapter_getAll_def RedisDatabaseAdapter_redisGetAll_def keys reads)
  then show ?thesis by simp
qed

lemma RedisDatabaseAdapter_getAll_two_of_three_example:
  "RedisDatabaseAdapter_set ''user'' ''a'' (JObj [(''n'', JNum 1)]) []
     = Inr (True, [(''user_a'', ''{\"n\":1}'')])
   \<and> RedisDatabaseAdapter_set ''user'' ''b'' (JObj [(''n'', JNum 2)]) [(''user_a'', ''{\"n\":1}'')]
     = Inr (True, [(''user_a'', ''{\"n\":1}''), (''user_b'', ''{\"n\":2}'')])
   \<and> RedisDatabaseAdapter_set ''session'' ''c'' (JObj [(''n'', JNum 3)])
       [(''user_a'', ''{\"n\":1}''), (''user_b'', ''{\"n\":2}'')]
     = Inr (True, [(''user_a'', ''{\"n\":1}''), (''user_b'', ''{\"n\":2}''), (''session_c'', ''{\"n\":3}'')])
   \<and> encodable (JObj [(''n'', JNum 1)]) \<and> encodable (JObj [(''n'', JNum 2)])
   \<and> glob_free ''user'' \<and> \<not> prefix ''user'' (getPrefixedKey ''session'' ''c'')
   \<and> (\<exists>models. RedisDatabaseAdapter_getAll (\<lambda>object. object) ''user''
          [(''user_a'', ''{\"n\":1}''), (''user_b'', ''{\"n\":2}''), (''session_c'', ''{\"n\":3}'')]
          = Inr models
        \<and> mset models = {#JObj [(''n'', JNum 1)], JObj [(''n'', JNum 2)]#})"
proof -
  have a: "RedisDatabaseAdapter_set ''user'' ''a'' (JObj [(''n'', JNum 1)]) []
      = Inr (True, [(''user_a'', ''{\"n\":1}'')])"
    by (simp add: RedisDatabaseAdapter_set_def RedisDatabaseAdapter_get_def store_eval codec_eval)
  have b: "RedisDatabaseAdapter_set ''user'' ''b'' (JObj [(''n'', JNum 2)]) [(''user_a'', ''{\"n\":1}'')]
      = Inr (True, [(''user_a'', ''{\"n\":1}''), (''user_b'', ''{\"n\":2}'')])"
    by (simp add: RedisDatabaseAdapter_set_def RedisDatabaseAdapter_get_def store_eval codec_eval)
  have c: "RedisDatabaseAdapter_set ''session'' ''c'' (JObj [(''n'', JNum 3)])
       [(''user_a'', ''{\"n\":1}''), (''user_b'', ''{\"n\":2}'')]
      = Inr (True, [(''user_a'', ''{\"n\":1}''), (''user_b'', ''{\"n\":2}''), (''session_c'', ''{\"n\":3}'')])"
    by (simp add: RedisDatabaseAdapter_set_def RedisDatabaseAdapter_get_def store_eval codec_eval)
  have enc: "encodable (JObj [(''n'', JNum 1)])" "encodable (JObj [(''n'', JNum 2)])"
    by (simp_all add: MAX_SAFE_INTEGER_def)
  have free: "glob_free ''user''"
    by (simp add: glob_free_def)
  have apart: "\<not> prefix ''user'' (getPrefixedKey ''session'' ''c'')"
    by (simp add: getPrefixedKey_def)
  show ?thesis
    using RedisDatabaseAdapter_getAll_two_of_three
      [OF a b c enc free apart, of "\<lambda>object. object"] a b c enc free apart
    by blast
qed

text \<open>
  The pattern is the prefix followed by a wildcard: with the prefixes \<^verbatim>\<open>user\<close> and \<^verbatim>\<open>users\<close>,
  \<^verbatim>\<open>user*\<close> also matches the third key \<^verbatim>\<open>users_c\<close>, and \<^verbatim>\<open>getAll("user")\<close> returns three
  records.
\<close>

lemma RedisDatabaseAdapter_getAll_overlapping_prefix:
  "RedisDatabaseAdapter_set ''user'' ''a'' (JObj [(''n'', JNum 1)]) []
     = Inr (True, [(''user_a'', ''{\"n\":1}'')])
   \<and> RedisDatabaseAdapter_set ''user'' ''b'' (JObj [(''n'', JNum 2)]) [(''user_a'', ''{\"n\":1}'')]
     = Inr (True, [(''user_a'', ''{\"n\":1}''), (''user_b'', ''{\"n\":2}'')])
   \<and> RedisDatabaseAdapter_set ''users'' ''c'' (JObj [(''n'', JNum 3)])
       [(''user_a'', ''{\"n\":1}''), (''user_b'', ''{\"n\":2}'')]
     = Inr (True, [(''user_a'', ''{\"n\":1}''), (''user_b'', ''{\"n\":2}''), (''users_c'', ''{\"n\":3}'')])
   \<and> RedisDatabaseAdapter_getAll (\<lambda>object. object) ''user''
       [(''user_a'', ''{\"n\":1}''), (''user_b'', ''{\"n\":2}''), (''users_c'', ''{\"n\":3}'')]
     = Inr [JObj [(''n'', JNum 1)], JObj [(''n'', JNum 2)], JObj [(''n'', JNum 3)]]"
  by (simp add: RedisDatabaseAdapter_set_def RedisDatabaseAdapter_get_def
      RedisDatabaseAdapter_getAll_def RedisDatabaseAdapter_redisGetAll_def
      store_eval codec_eval glob_match.simps)

text \<open>
  C5. In DatabaseAdapter, records are inserted from the empty store at (user, a), (user, b)
  and (session, c); the store then holds the keys \<^verbatim>\<open>usera\<close>, \<^verbatim>\<open>userb\<close> and \<^verbatim>\<open>sessionc\<close>.
  \<^verbatim>\<open>getAll("user")\<close> asks for the keys that match the pattern \<^verbatim>\<open>user\<close>, without a wildcard, and
  would parse the key names, not the payloads: no key matches, and it returns no record.
\<close>

theorem DatabaseAdapter_getAll_returns_nothing:
  "DatabaseAdapter_set ''user'' ''a'' (JObj [(''n'', JNum 1)]) []
     = Inr (True, [(''usera'', ''{\"n\":1}'')])
   \<and> DatabaseAdapter_set ''user'' ''b'' (JObj [(''n'', JNum 2)]) [(''usera'', ''{\"n\":1}'')]
     = Inr (True, [(''usera'', ''{\"n\":1}''), (''userb'', ''{\"n\":2}'')])
   \<and> DatabaseAdapter_set ''session'' ''c'' (JObj [(''n'', JNum 3)])
       [(''usera'', ''{\"n\":1}''), (''userb'', ''{\"n\":2}'')]
     = Inr (True, [(''usera'', ''{\"n\":1}''), (''userb'', ''{\"n\":2}''), (''sessionc'', ''{\"n\":3}'')])
   \<and> DatabaseAdapter_getAll ''user''
       [(''usera'', ''{\"n\":1}''), (''userb'', ''{\"n\":2}''), (''sessionc'', ''{\"n\":3}'')]
     = Inr []"
  by (simp add: DatabaseAdapter_set_def DatabaseAdapter_get_def DatabaseAdapter_getAll_def
      DatabaseAdapter_redisGetAll_def store_eval codec_eval glob_match.simps)

end
